theory Spec2Isabelle
  imports Main
begin

section \<open>The query session pool (src/query/query-session-pool.ts)\<close>

text \<open>
  The pool is single-threaded JavaScript: every synchronous stretch of code runs to its end,
  and the stretches of different logical operations interleave at the suspension points
  (an \<^verbatim>\<open>await\<close>, a \<^verbatim>\<open>.then\<close>/\<^verbatim>\<open>.finally\<close> callback, a timer, an emitted event).
  The model is a state record for the pool and one event per synchronous stretch; a run is
  a list of events.
\<close>

subsection \<open>Errors, sessions, promises\<close>

datatype error = BadSession | SessionBusy | SessionPoolEmpty | OtherError string

text \<open>A session object is named by its identity; an acquire call (its promise, its waiter
  closure and its timer) is named by a number of its own, drawn from a counter.\<close>

type_synonym sid = nat
type_synonym call = nat

text \<open>Modelled from the spec: the class QuerySession (query-session.ts) is not among the
  sources. Its data model in the spec gives a session the mutable flags \<open>busy\<close>, \<open>closing\<close>
  and \<open>deleted\<close>, and the states Free, Busy, Closing and Deleted.\<close>

record qsession =
  busy :: bool
  closing :: bool
  deleted :: bool

text \<open>Modelled from the spec: a session is created by the Session Builder and then moves
  between Free and Busy, so a new session is Free.\<close>

definition sessionCreate :: qsession where
  "sessionCreate = \<lparr>busy = False, closing = False, deleted = False\<rparr>"

text \<open>Modelled from the spec: \<open>isFree()\<close>, \<open>isClosing()\<close> and \<open>isDeleted()\<close> are pure queries
  of the state; Free is the state that is neither Busy nor Deleted.\<close>

definition sessionIsFree :: "qsession \<Rightarrow> bool" where
  "sessionIsFree s = (\<not> busy s \<and> \<not> deleted s)"

definition sessionIsClosing :: "qsession \<Rightarrow> bool" where
  "sessionIsClosing s = closing s"

definition sessionIsDeleted :: "qsession \<Rightarrow> bool" where
  "sessionIsDeleted s = deleted s"

text \<open>Modelled from the spec: \<open>acquire()\<close> moves the session to Busy and gives the session
  back.\<close>

definition sessionAcquire :: "qsession \<Rightarrow> qsession" where
  "sessionAcquire s = s\<lparr>busy := True\<rparr>"

text \<open>Modelled from the spec: \<open>markForDeleteOnRelease()\<close> turns the next \<open>release()\<close> into a
  deletion.\<close>

definition sessionDeleteOnRelease :: "qsession \<Rightarrow> qsession" where
  "sessionDeleteOnRelease s = s\<lparr>closing := True\<rparr>"

text \<open>Modelled from the spec: \<open>release()\<close>, when \<open>closing\<close> is set, triggers the deletion
  instead of returning the session to Free; otherwise the session is freed and the pool
  is told. This is the session's own part; the pool's handler for the event (under src/,
  it asks \<open>isClosing()\<close> itself) is \<open>emit\<close> below.\<close>

definition sessionRelease :: "qsession \<Rightarrow> qsession" where
  "sessionRelease s = (if closing s then s else s\<lparr>busy := False\<rparr>)"

text \<open>Modelled from the spec: \<open>delete()\<close> issues the remote delete, closes the attach stream
  and marks the session Deleted; the session is Deleted once the delete completes.\<close>

definition sessionDelete :: "qsession \<Rightarrow> qsession" where
  "sessionDelete s = s\<lparr>deleted := True\<rparr>"

datatype outcome = Resolved sid | Rejected error

subsection \<open>The pool state\<close>

text \<open>The first seven fields are the fields of the class. The others are the part of the
  JavaScript run time the pool's behaviour depends on: the session objects, the armed
  timers, the promises in flight and the callbacks waiting for them, and two logs, of the
  settled acquire promises and of the waiter closures that were called.\<close>

record pool =
  minLimit :: int
  maxLimit :: int
  sessions :: "sid list"
  newSessionsRequested :: int
  sessionsBeingDeleted :: int
  waiters :: "call list"
  store :: "sid \<Rightarrow> qsession"
  timers :: "call list"
  nextCall :: call
  nextSession :: sid
  creating :: "call list"
  created :: "(call \<times> sid) list"
  finishing :: "(call \<times> outcome) list"
  deleting :: "sid list"
  internal :: "call list"
  settled :: "(call \<times> outcome) list"
  handoffs :: "(call \<times> sid) list"

text \<open>\<^verbatim>\<open>poolSettings?.maxLimit || SESSION_MAX_LIMIT\<close>: an absent setting and the number 0 are
  both falsy and give the default.\<close>

definition orDefault :: "int option \<Rightarrow> int \<Rightarrow> int" where
  "orDefault v d = (case v of None \<Rightarrow> d | Some x \<Rightarrow> if x = 0 then d else x)"

definition SESSION_MIN_LIMIT :: int where
  "SESSION_MIN_LIMIT = 5"

definition SESSION_MAX_LIMIT :: int where
  "SESSION_MAX_LIMIT = 20"

definition newPool :: "int option \<Rightarrow> int option \<Rightarrow> pool" where
  "newPool minSetting maxSetting =
     \<lparr>minLimit = orDefault minSetting SESSION_MIN_LIMIT,
      maxLimit = orDefault maxSetting SESSION_MAX_LIMIT,
      sessions = [],
      newSessionsRequested = 0,
      sessionsBeingDeleted = 0,
      waiters = [],
      store = (\<lambda>_. sessionCreate),
      timers = [],
      nextCall = 0,
      nextSession = 0,
      creating = [],
      created = [],
      finishing = [],
      deleting = [],
      internal = [],
      settled = [],
      handoffs = []\<rparr>"

subsection \<open>Promises, arrays\<close>

text \<open>A promise settles once: a later resolve or reject of the same promise does nothing.\<close>

definition settle :: "call \<Rightarrow> outcome \<Rightarrow> pool \<Rightarrow> pool" where
  "settle c r st =
     (case map_of (settled st) c of
        None \<Rightarrow> st\<lparr>settled := settled st @ [(c, r)]\<rparr>
      | Some _ \<Rightarrow> st)"

text \<open>\<^verbatim>\<open>Array.prototype.indexOf\<close> gives -1 for an absent element, and
  \<^verbatim>\<open>Array.prototype.splice(start, 1)\<close> counts a negative start from the end.\<close>

fun indexOf :: "'a list \<Rightarrow> 'a \<Rightarrow> int" where
  "indexOf [] x = - 1"
| "indexOf (y # ys) x =
     (if x = y then 0 else (let i = indexOf ys x in if i < 0 then - 1 else i + 1))"

definition splice1 :: "int \<Rightarrow> 'a list \<Rightarrow> 'a list" where
  "splice1 start xs =
     (let n = int (length xs);
          i = (if start < 0 then max (n + start) 0 else min start n)
      in take (nat i) xs @ drop (Suc (nat i)) xs)"

definition setSession :: "sid \<Rightarrow> qsession \<Rightarrow> pool \<Rightarrow> pool" where
  "setSession s v st = st\<lparr>store := (store st)(s := v)\<rparr>"

subsection \<open>maybeUseSession, acquire, deleteSession\<close>

text \<open>The waiter closure of acquire call \<open>w\<close>, applied to a session: it clears its timer,
  marks the session busy and resolves the promise of the call.\<close>

definition callWaiter :: "call \<Rightarrow> sid \<Rightarrow> pool \<Rightarrow> pool" where
  "callWaiter w s st =
     settle w (Resolved s)
       ((setSession s (sessionAcquire (store st s)) st)
          \<lparr>timers := removeAll w (timers st), handoffs := handoffs st @ [(w, s)]\<rparr>)"

text \<open>\<^verbatim>\<open>maybeUseSession\<close>: the result is whether a waiter took the session.\<close>

definition maybeUseSession :: "sid \<Rightarrow> pool \<Rightarrow> bool \<times> pool" where
  "maybeUseSession s st =
     (case waiters st of
        [] \<Rightarrow> (False, st)
      | w # ws \<Rightarrow> (True, callWaiter w s (st\<lparr>waiters := ws\<rparr>)))"

text \<open>The admission gate of \<^verbatim>\<open>acquire\<close>.\<close>

definition gateOpen :: "pool \<Rightarrow> bool" where
  "gateOpen st =
     (int (length (sessions st)) + newSessionsRequested st - sessionsBeingDeleted st
        \<le> maxLimit st)"

text \<open>The synchronous part of \<^verbatim>\<open>acquire(timeout)\<close>. \<open>fromDelete\<close> tells the call that
  deleteSession makes, whose promise carries deleteSession's own callback.\<close>

definition acquire :: "bool \<Rightarrow> int \<Rightarrow> pool \<Rightarrow> pool" where
  "acquire fromDelete timeout st =
     (let c = nextCall st;
          st0 = st\<lparr>nextCall := Suc c,
                   internal := (if fromDelete then internal st @ [c] else internal st)\<rparr>
      in case find (\<lambda>s. sessionIsFree (store st0 s)) (sessions st0) of
           Some s \<Rightarrow> settle c (Resolved s) (setSession s (sessionAcquire (store st0 s)) st0)
         | None \<Rightarrow>
             if gateOpen st0
             then st0\<lparr>newSessionsRequested := newSessionsRequested st0 + 1,
                      creating := creating st0 @ [c]\<rparr>
             else st0\<lparr>timers := (if timeout \<noteq> 0 then timers st0 @ [c] else timers st0),
                      waiters := waiters st0 @ [c]\<rparr>)"

text \<open>The synchronous part of \<^verbatim>\<open>deleteSession\<close>: the early return, the counter, the
  acquire for a pending waiter, and the start of \<^verbatim>\<open>session.delete()\<close>.\<close>

definition deleteSession :: "sid \<Rightarrow> pool \<Rightarrow> pool" where
  "deleteSession s st =
     (if sessionIsDeleted (store st s) then st
      else
        let st1 = st\<lparr>sessionsBeingDeleted := sessionsBeingDeleted st + 1\<rparr>;
            st2 = (if waiters st1 \<noteq> [] then acquire True 0 st1 else st1)
        in st2\<lparr>deleting := deleting st2 @ [s]\<rparr>)"

text \<open>The two handlers \<^verbatim>\<open>createSession\<close> registers on every session it creates.\<close>

datatype SessionEvent = SESSION_RELEASE | SESSION_BROKEN

fun emit :: "SessionEvent \<Rightarrow> sid \<Rightarrow> pool \<Rightarrow> pool" where
  "emit SESSION_RELEASE s st =
     (if sessionIsClosing (store st s) then deleteSession s st
      else snd (maybeUseSession s st))"
| "emit SESSION_BROKEN s st = deleteSession s st"

text \<open>\<^verbatim>\<open>session[sessionRelease]()\<close>: the session's own part, then the event.\<close>

definition release :: "sid \<Rightarrow> pool \<Rightarrow> pool" where
  "release s st = emit SESSION_RELEASE s (setSession s (sessionRelease (store st s)) st)"

subsection \<open>Events\<close>

datatype event =
    Acquire int
  | CreateDone call
  | CreateFail call error
  | Then call
  | Finally call
  | Release sid
  | Broken sid
  | StreamClosed sid
  | DeleteDone sid
  | Timeout call
  | Continue call
  | Destroy

text \<open>
  \<^item> \<open>Acquire t\<close>: a caller runs \<^verbatim>\<open>pool.acquire(t)\<close>.
  \<^item> \<open>CreateDone c\<close>: \<^verbatim>\<open>createSession()\<close> of call \<open>c\<close> runs to its end: the new session gets
    its handlers and joins the live set.
  \<^item> \<open>CreateFail c e\<close>: \<^verbatim>\<open>createSession()\<close> of call \<open>c\<close> rejects with \<open>e\<close>.
  \<^item> \<open>Then c\<close>, \<open>Finally c\<close>: the two callbacks \<^verbatim>\<open>acquire\<close> chains on \<^verbatim>\<open>createSession()\<close>.
  \<^item> \<open>Release s\<close>: the holder of session \<open>s\<close> releases it.
  \<^item> \<open>Broken s\<close>: SESSION_BROKEN is emitted on \<open>s\<close>.
  \<^item> \<open>StreamClosed s\<close>: the attach stream of \<open>s\<close> ends (the callback SessionBuilder.create
    registers).
  \<^item> \<open>DeleteDone s\<close>: \<^verbatim>\<open>session.delete()\<close> settles and deleteSession's \<^verbatim>\<open>finally\<close> runs.
  \<^item> \<open>Timeout c\<close>: the timer of call \<open>c\<close> fires.
  \<^item> \<open>Continue c\<close>: the callback deleteSession chained on its own acquire call \<open>c\<close> runs.
  \<^item> \<open>Destroy\<close>: \<^verbatim>\<open>pool.destroy()\<close> is called.
  An event that cannot happen in the state (no such promise, timer or callback) leaves it
  as it is.
\<close>

definition createDone :: "call \<Rightarrow> pool \<Rightarrow> pool" where
  "createDone c st =
     (if c \<in> set (creating st) then
        let s = nextSession st
        in (setSession s sessionCreate st)
             \<lparr>nextSession := Suc s,
              sessions := (if s \<in> set (sessions st) then sessions st else sessions st @ [s]),
              creating := remove1 c (creating st),
              created := created st @ [(c, s)]\<rparr>
      else st)"

definition createFail :: "call \<Rightarrow> error \<Rightarrow> pool \<Rightarrow> pool" where
  "createFail c e st =
     (if c \<in> set (creating st)
      then st\<lparr>creating := remove1 c (creating st),
              finishing := finishing st @ [(c, Rejected e)]\<rparr>
      else st)"

definition thenCallback :: "call \<Rightarrow> pool \<Rightarrow> pool" where
  "thenCallback c st =
     (case map_of (created st) c of
        None \<Rightarrow> st
      | Some s \<Rightarrow>
          (setSession s (sessionAcquire (store st s)) st)
            \<lparr>created := remove1 (c, s) (created st),
             finishing := finishing st @ [(c, Resolved s)]\<rparr>)"

definition finallyCallback :: "call \<Rightarrow> pool \<Rightarrow> pool" where
  "finallyCallback c st =
     (case map_of (finishing st) c of
        None \<Rightarrow> st
      | Some r \<Rightarrow>
          settle c r
            (st\<lparr>newSessionsRequested := newSessionsRequested st - 1,
                finishing := remove1 (c, r) (finishing st)\<rparr>))"

definition streamClosed :: "sid \<Rightarrow> pool \<Rightarrow> pool" where
  "streamClosed s st = setSession s (sessionDeleteOnRelease (store st s)) st"

text \<open>\<^verbatim>\<open>session.delete()\<close> has settled, and deleteSession's \<^verbatim>\<open>finally\<close> runs whether it
  succeeded or failed.\<close>

definition deleteDone :: "sid \<Rightarrow> pool \<Rightarrow> pool" where
  "deleteDone s st =
     (if s \<in> set (deleting st)
      then (setSession s (sessionDelete (store st s)) st)
             \<lparr>deleting := remove1 s (deleting st),
              sessions := removeAll s (sessions st),
              sessionsBeingDeleted := sessionsBeingDeleted st - 1\<rparr>
      else st)"

definition timeoutFired :: "call \<Rightarrow> pool \<Rightarrow> pool" where
  "timeoutFired c st =
     (if c \<in> set (timers st)
      then settle c (Rejected SessionPoolEmpty)
             (st\<lparr>timers := removeAll c (timers st),
                 waiters := splice1 (indexOf (waiters st) c) (waiters st)\<rparr>)
      else st)"

text \<open>deleteSession's callback on its own acquire:
  \<^verbatim>\<open>if (!this.maybeUseSession(session)) session[sessionRelease]()\<close>. It runs once, when the
  call has resolved; a rejected call never runs it.\<close>

definition continueDelete :: "call \<Rightarrow> pool \<Rightarrow> pool" where
  "continueDelete c st =
     (if c \<in> set (internal st) then
        (case map_of (settled st) c of
           Some (Resolved s) \<Rightarrow>
             (let st1 = st\<lparr>internal := removeAll c (internal st)\<rparr>;
                  r = maybeUseSession s st1
              in if fst r then snd r else release s st1)
         | _ \<Rightarrow> st)
      else st)"

text \<open>The synchronous part of \<^verbatim>\<open>destroy\<close>: \<^verbatim>\<open>deleteSession\<close> on a copy of the live set, in its
  order.\<close>

definition destroy :: "pool \<Rightarrow> pool" where
  "destroy st = fold deleteSession (sessions st) st"

fun step :: "event \<Rightarrow> pool \<Rightarrow> pool" where
  "step (Acquire t) st = acquire False t st"
| "step (CreateDone c) st = createDone c st"
| "step (CreateFail c e) st = createFail c e st"
| "step (Then c) st = thenCallback c st"
| "step (Finally c) st = finallyCallback c st"
| "step (Release s) st = release s st"
| "step (Broken s) st = emit SESSION_BROKEN s st"
| "step (StreamClosed s) st = streamClosed s st"
| "step (DeleteDone s) st = deleteDone s st"
| "step (Timeout c) st = timeoutFired c st"
| "step (Continue c) st = continueDelete c st"
| "step Destroy st = destroy st"

fun run :: "event list \<Rightarrow> pool \<Rightarrow> pool" where
  "run [] st = st"
| "run (e # es) st = run es (step e st)"

section \<open>The query client (query-client.ts)\<close>

subsection \<open>What \<^verbatim>\<open>do\<close> reads and writes\<close>

text \<open>The fields of a session that \<^verbatim>\<open>do\<close> stamps, reads and deletes. A deleted or never
  assigned property is \<open>None\<close>.\<close>

type_synonym execContext = nat

record 't stamps =
  ctxSymbol :: "execContext option"
  sessionTxSettings :: "'t option"
  sessionTxId :: "string option"
  sessionCurrentOperation :: "nat option"
  isIdempotentDoLevel :: "bool option"
  isIdempotent :: "bool option"

text \<open>\<^verbatim>\<open>IDoOpts\<close>. The user callback \<open>fn\<close> gets the session and either throws or returns,
  leaving the session in some state. \<open>idempotent\<close> is \<open>None\<close> when the object has no such own
  property (\<^verbatim>\<open>hasOwnProperty\<close>), and \<open>Some v\<close> when it has, \<open>v\<close> being its possibly undefined
  value.\<close>

record ('t, 'r) doOpts =
  ctx :: "execContext option"
  txSettings :: "'t option"
  fn :: "'t stamps \<Rightarrow> (error + 'r) \<times> 't stamps"
  timeout :: "int option"
  idempotent :: "bool option option"

text \<open>The collaborators of the client that are not among the sources are parameters: the
  two transaction calls of the session (each fails with an error or succeeds, and leaves
  the session in some state), the derived context of \<^verbatim>\<open>ctx.wrap\<close>, the retry loop of
  RetryStrategy, the constant \<^verbatim>\<open>AUTO_TX.beginTx\<close>, what the pool's acquire gives the
  \<open>k\<close>-th attempt, and of the decorator \<^verbatim>\<open>ensureContext\<close> the context it makes (the \<open>n\<close>-th
  one) and whether it writes that context into the options object it was given or into a
  copy.\<close>

datatype 'r attemptResult = Result 'r | Failure error "bool option"

record ('t, 'r) collaborators =
  sessionCommitTransaction :: "'t stamps \<Rightarrow> error option \<times> 't stamps"
  sessionRollbackTransaction :: "'t stamps \<Rightarrow> error option \<times> 't stamps"
  wrap :: "execContext \<Rightarrow> int option \<Rightarrow> execContext"
  retry :: "execContext \<Rightarrow> (nat \<Rightarrow> error + 'r attemptResult) \<Rightarrow> error + 'r"
  AUTO_TX_beginTx :: 't
  poolAcquire :: "nat \<Rightarrow> error + 't stamps"
  newContext :: "nat \<Rightarrow> execContext"
  ensureContextInPlace :: bool

text \<open>What one attempt does to the outside, in order.\<close>

datatype action = FnCalled | RollbackCalled | CommitCalled | ReleaseCalled | BrokenEmitted

definition isBadOrBusy :: "error \<Rightarrow> bool" where
  "isBadOrBusy e = (e = BadSession \<or> e = SessionBusy)"

text \<open>\<^verbatim>\<open>if (session[sessionTxId])\<close>: an absent id and the empty string are falsy.\<close>

definition openTx :: "'t stamps \<Rightarrow> bool" where
  "openTx s = (case sessionTxId s of None \<Rightarrow> False | Some i \<Rightarrow> i \<noteq> [])"

subsection \<open>One attempt\<close>

text \<open>Lines 76 to 80: the stamps set before the \<^verbatim>\<open>try\<close>.\<close>

definition stampSession :: "execContext \<Rightarrow> ('t, 'r) doOpts \<Rightarrow> 't stamps \<Rightarrow> 't stamps" where
  "stampSession c opts s =
     (let s1 = s\<lparr>ctxSymbol := Some c\<rparr>
      in case idempotent opts of
           None \<Rightarrow> s1
         | Some v \<Rightarrow> s1\<lparr>isIdempotentDoLevel := Some True, isIdempotent := v\<rparr>)"

text \<open>Line 83: \<^verbatim>\<open>if (opts.txSettings) session[sessionTxSettings] = opts.txSettings\<close>.\<close>

definition stampTxSettings :: "('t, 'r) doOpts \<Rightarrow> 't stamps \<Rightarrow> 't stamps" where
  "stampTxSettings opts s =
     (case txSettings opts of None \<Rightarrow> s | Some t \<Rightarrow> s\<lparr>sessionTxSettings := Some t\<rparr>)"

text \<open>One awaited transaction call inside the \<^verbatim>\<open>try\<close>: when it fails, its error is thrown
  from there and \<open>otherwise\<close> (the \<^verbatim>\<open>throw err\<close> or the \<^verbatim>\<open>return\<close> that follows the call) is
  not reached.\<close>

definition awaitTx ::
  "('t stamps \<Rightarrow> error option \<times> 't stamps) \<Rightarrow> action \<Rightarrow> (error + 'r) \<Rightarrow> 't stamps
     \<Rightarrow> (error + 'r) \<times> 't stamps \<times> action list" where
  "awaitTx call a otherwise s =
     (case call s of
        (Some e, s') \<Rightarrow> (Inl e, s', [a])
      | (None, s') \<Rightarrow> (otherwise, s', [a]))"

text \<open>Lines 87 to 102: what follows the callback, which has thrown \<open>err\<close> (\<open>Inl\<close>) or
  returned \<open>res\<close>.\<close>

definition afterFn ::
  "('t, 'r) collaborators \<Rightarrow> ('t, 'r) doOpts \<Rightarrow> (error + 'r) \<Rightarrow> 't stamps
     \<Rightarrow> (error + 'r) \<times> 't stamps \<times> action list" where
  "afterFn W opts r s =
     (case r of
        Inl err \<Rightarrow>
          if openTx s \<and> \<not> isBadOrBusy err
          then awaitTx (sessionRollbackTransaction W) RollbackCalled (Inl err) s
          else (Inl err, s, [])
      | Inr res \<Rightarrow>
          if openTx s
          then (if txSettings opts \<noteq> None
                then awaitTx (sessionCommitTransaction W) CommitCalled (Inr res) s
                else awaitTx (sessionRollbackTransaction W) RollbackCalled (Inr res) s)
          else (Inr res, s, []))"

text \<open>Lines 83 to 102: the body of the outer \<^verbatim>\<open>try\<close>. The result is what the body throws
  (\<open>Inl\<close>) or returns, the session after it, and the calls made.\<close>

definition tryBody ::
  "('t, 'r) collaborators \<Rightarrow> ('t, 'r) doOpts \<Rightarrow> 't stamps
     \<Rightarrow> (error + 'r) \<times> 't stamps \<times> action list" where
  "tryBody W opts s =
     (case fn opts (stampTxSettings opts s) of
        (r, s2) \<Rightarrow>
          (case afterFn W opts r s2 of
             (r', s3, calls) \<Rightarrow> (r', s3, FnCalled # calls)))"

text \<open>Lines 107 to 111: the \<^verbatim>\<open>delete\<close>s of the \<^verbatim>\<open>finally\<close> block.\<close>

definition clearStamps :: "'t stamps \<Rightarrow> 't stamps" where
  "clearStamps s =
     s\<lparr>ctxSymbol := None, sessionTxSettings := None, sessionCurrentOperation := None,
       isIdempotentDoLevel := None, isIdempotent := None\<rparr>"

record ('t, 'r) attempted =
  reported :: "'r attemptResult"
  sessionAfter :: "'t stamps"
  actions :: "action list"

text \<open>The attempt function handed to \<^verbatim>\<open>retry\<close>, from the acquired session on: the \<^verbatim>\<open>catch\<close>
  reads \<open>isIdempotent\<close> before the \<^verbatim>\<open>finally\<close> deletes it, and the \<^verbatim>\<open>finally\<close> ends with
  the broken signal or the release.\<close>

definition attempt ::
  "('t, 'r) collaborators \<Rightarrow> execContext \<Rightarrow> ('t, 'r) doOpts \<Rightarrow> 't stamps \<Rightarrow> ('t, 'r) attempted" where
  "attempt W c opts s =
     (case tryBody W opts (stampSession c opts s) of
        (Inr res, s1, log) \<Rightarrow>
          \<lparr>reported = Result res, sessionAfter = clearStamps s1,
           actions = log @ [ReleaseCalled]\<rparr>
      | (Inl err, s1, log) \<Rightarrow>
          \<lparr>reported = Failure err (isIdempotent s1), sessionAfter = clearStamps s1,
           actions = log @ [if isBadOrBusy err then BrokenEmitted else ReleaseCalled]\<rparr>)"

text \<open>What the last action of an attempt does to the pool that owns the session.\<close>

fun poolSees :: "action \<Rightarrow> sid \<Rightarrow> pool \<Rightarrow> pool" where
  "poolSees ReleaseCalled p st = release p st"
| "poolSees BrokenEmitted p st = emit SESSION_BROKEN p st"
| "poolSees _ p st = st"

subsection \<open>\<^verbatim>\<open>do\<close> and \<^verbatim>\<open>doTx\<close>\<close>

text \<open>The caller passes a reference to its options object; the objects live in a store,
  which also counts the contexts made so far.\<close>

record ('t, 'r) objects =
  object :: "nat \<Rightarrow> ('t, 'r) doOpts"
  nextRef :: nat
  contextsMade :: nat

text \<open>Modelled from the spec: the decorator \<^verbatim>\<open>ensureContext\<close>, applied to \<^verbatim>\<open>do\<close> and to
  \<^verbatim>\<open>doTx\<close>, is not among the sources. The spec makes \<open>ctx\<close> optional in the options of both
  and has \<^verbatim>\<open>do\<close> establish its execution context from it, and the body of \<^verbatim>\<open>do\<close> asserts
  \<^verbatim>\<open>opts.ctx!\<close>: the decorated method runs on options that carry a context, the caller's
  when there is one and a new one otherwise. The result is that context, the reference
  the body gets and the store.\<close>

definition ensureContext ::
  "('t, 'r) collaborators \<Rightarrow> nat \<Rightarrow> ('t, 'r) objects \<Rightarrow> execContext \<times> nat \<times> ('t, 'r) objects" where
  "ensureContext W ref h =
     (case ctx (object h ref) of
        Some c \<Rightarrow> (c, ref, h)
      | None \<Rightarrow>
          let c = newContext W (contextsMade h);
              opts = (object h ref)\<lparr>ctx := Some c\<rparr>;
              h1 = h\<lparr>contextsMade := Suc (contextsMade h)\<rparr>
          in if ensureContextInPlace W
             then (c, ref, h1\<lparr>object := (object h1)(ref := opts)\<rparr>)
             else (c, nextRef h1,
                   h1\<lparr>object := (object h1)(nextRef h1 := opts), nextRef := Suc (nextRef h1)\<rparr>))"

text \<open>Lines 69 to 120, the body of \<^verbatim>\<open>do\<close>: \<open>c0\<close> is \<^verbatim>\<open>opts.ctx!\<close>. An attempt whose acquire
  rejects rejects itself.\<close>

definition doBody ::
  "('t, 'r) collaborators \<Rightarrow> execContext \<Rightarrow> ('t, 'r) doOpts \<Rightarrow> error + 'r" where
  "doBody W c0 opts =
     (let c = wrap W c0 (timeout opts)
      in retry W c
           (\<lambda>k. case poolAcquire W k of
                  Inl e \<Rightarrow> Inl e
                | Inr s \<Rightarrow> Inr (reported (attempt W c opts s))))"

text \<open>The decorated \<^verbatim>\<open>do\<close>: the decorator, then the body, which only reads the object.\<close>

definition do ::
  "('t, 'r) collaborators \<Rightarrow> nat \<Rightarrow> ('t, 'r) objects \<Rightarrow> (error + 'r) \<times> ('t, 'r) objects" where
  "do W ref h =
     (case ensureContext W ref h of
        (c0, ref1, h1) \<Rightarrow> (doBody W c0 (object h1 ref1), h1))"

text \<open>The decorated \<^verbatim>\<open>doTx\<close>: the decorator, then the body, which passes the reference on or
  builds a new object with the spread \<^verbatim>\<open>{...opts, txSettings: AUTO_TX.beginTx}\<close>, and calls
  the decorated \<^verbatim>\<open>do\<close>.\<close>

definition doTx ::
  "('t, 'r) collaborators \<Rightarrow> nat \<Rightarrow> ('t, 'r) objects \<Rightarrow> (error + 'r) \<times> ('t, 'r) objects" where
  "doTx W ref h =
     (case ensureContext W ref h of
        (c0, ref1, h1) \<Rightarrow>
          if txSettings (object h1 ref1) = None
          then
            let ref' = nextRef h1;
                h' = h1\<lparr>object := (object h1)
                           (ref' := (object h1 ref1)\<lparr>txSettings := Some (AUTO_TX_beginTx W)\<rparr>),
                        nextRef := Suc ref'\<rparr>
            in do W ref' h'
          else do W ref1 h1)"

subsection \<open>Concrete collaborators and callbacks\<close>

text \<open>A session with no stamps; a transaction call that fails with the given error, or
  succeeds and clears the transaction id; a retry loop that makes one attempt; a callback
  that opens a transaction and then throws or returns.\<close>

definition noStamps :: "string stamps" where
  "noStamps =
     \<lparr>ctxSymbol = None, sessionTxSettings = None, sessionTxId = None,
      sessionCurrentOperation = None, isIdempotentDoLevel = None, isIdempotent = None\<rparr>"

definition txCall :: "error option \<Rightarrow> string stamps \<Rightarrow> error option \<times> string stamps" where
  "txCall failure s =
     (case failure of None \<Rightarrow> (None, s\<lparr>sessionTxId := None\<rparr>) | Some e \<Rightarrow> (Some e, s))"

definition oneAttempt :: "(nat \<Rightarrow> error + nat attemptResult) \<Rightarrow> error + nat" where
  "oneAttempt f =
     (case f 0 of
        Inl e \<Rightarrow> Inl e
      | Inr (Result r) \<Rightarrow> Inr r
      | Inr (Failure e i) \<Rightarrow> Inl e)"

definition someCollaborators ::
  "error option \<Rightarrow> error option \<Rightarrow> (string, nat) collaborators" where
  "someCollaborators commitFailure rollbackFailure =
     \<lparr>sessionCommitTransaction = txCall commitFailure,
      sessionRollbackTransaction = txCall rollbackFailure,
      wrap = (\<lambda>c t. c),
      retry = (\<lambda>c f. oneAttempt f),
      AUTO_TX_beginTx = ''beginTx'',
      poolAcquire = (\<lambda>k. Inr noStamps),
      newContext = (\<lambda>n. 100 + n),
      ensureContextInPlace = True\<rparr>"

definition openingFn :: "error + nat \<Rightarrow> string stamps \<Rightarrow> (error + nat) \<times> string stamps" where
  "openingFn r s = (r, s\<lparr>sessionTxId := Some ''tx1''\<rparr>)"

definition someOpts :: "string option \<Rightarrow> error + nat \<Rightarrow> (string, nat) doOpts" where
  "someOpts tx r =
     \<lparr>ctx = Some 0, txSettings = tx, fn = openingFn r, timeout = None, idempotent = None\<rparr>"

definition someObjects :: "string option \<Rightarrow> (string, nat) objects" where
  "someObjects tx =
     \<lparr>object = (\<lambda>_. someOpts tx (Inr 7)), nextRef = 1, contextsMade = 0\<rparr>"

text \<open>The same options without a context, as a caller may pass them.\<close>

definition bareObjects :: "string option \<Rightarrow> (string, nat) objects" where
  "bareObjects tx =
     \<lparr>object = (\<lambda>_. (someOpts tx (Inr 7))\<lparr>ctx := None\<rparr>), nextRef = 1, contextsMade = 0\<rparr>"

section \<open>Notions used to state the properties\<close>

text \<open>An acquire call queues a waiter exactly when no live session is free and the gate is
  shut.\<close>

definition blocked :: "pool \<Rightarrow> bool" where
  "blocked st = (find (\<lambda>s. sessionIsFree (store st s)) (sessions st) = None \<and> \<not> gateOpen st)"

text \<open>The acquire calls that are not waiting in the queue: those whose promise has settled,
  those that were handed a session by \<^verbatim>\<open>maybeUseSession\<close>, and those that are creating a
  session.\<close>

definition doneCalls :: "pool \<Rightarrow> call set" where
  "doneCalls st =
     fst ` set (settled st) \<union> fst ` set (handoffs st) \<union> set (creating st) \<union>
     fst ` set (created st) \<union> fst ` set (finishing st)"

abbreviation handed :: "pool \<Rightarrow> call set" where
  "handed st \<equiv> fst ` set (handoffs st)"

text \<open>The bookkeeping of the queue is consistent: no waiter twice, timers only for queued
  waiters, no queued call among the settled or creating ones, every call number drawn from
  the counter.\<close>

definition wellFormed :: "pool \<Rightarrow> bool" where
  "wellFormed st =
     (distinct (waiters st) \<and> set (timers st) \<subseteq> set (waiters st) \<and>
      set (waiters st) \<inter> doneCalls st = {} \<and>
      set (waiters st) \<union> doneCalls st \<subseteq> {..< nextCall st})"

text \<open>A call with number \<open>c\<close> has left the queue for good; a call is in the queue with
  its timer armed or not.\<close>

definition gone :: "call \<Rightarrow> pool \<Rightarrow> bool" where
  "gone c st = (c < nextCall st \<and> c \<notin> set (waiters st) \<and> c \<notin> set (timers st) \<and> c \<notin> handed st)"

definition queued :: "bool \<Rightarrow> call \<Rightarrow> pool \<Rightarrow> bool" where
  "queued armed c st = (c \<in> set (waiters st) \<and> (c \<in> set (timers st)) = armed)"

text \<open>A pool with \<open>maxLimit = 1\<close> in which two callers hold the sessions 0 and 1.\<close>

definition twoBusySessions :: pool where
  "twoBusySessions =
     run [Acquire 0, CreateDone 0, Then 0, Finally 0, Acquire 0, CreateDone 1, Then 1, Finally 1]
       (newPool None (Some 1))"

section \<open>Properties\<close>

lemmas pool_defs = newPool_def acquire_def createDone_def createFail_def thenCallback_def
  finallyCallback_def settle_def setSession_def sessionIsFree_def sessionCreate_def
  sessionAcquire_def gateOpen_def orDefault_def SESSION_MAX_LIMIT_def SESSION_MIN_LIMIT_def
  release_def deleteSession_def maybeUseSession_def callWaiter_def sessionRelease_def
  sessionIsClosing_def sessionIsDeleted_def sessionDelete_def sessionDeleteOnRelease_def
  streamClosed_def deleteDone_def timeoutFired_def continueDelete_def destroy_def splice1_def
  Let_def

lemmas client_defs = attempt_def tryBody_def afterFn_def awaitTx_def stampSession_def
  stampTxSettings_def clearStamps_def openTx_def isBadOrBusy_def

lemmas example_defs = noStamps_def txCall_def oneAttempt_def someCollaborators_def
  openingFn_def someOpts_def someObjects_def bareObjects_def

subsection \<open>The admission gate\<close>

text \<open>
  C1. The claim: live sessions plus session creations in flight never exceed \<open>maxLimit\<close>.
  The gate of \<^verbatim>\<open>acquire\<close> compares with \<open>\<le>\<close>, so it still admits a creation when the pool
  is full. With \<open>maxLimit = 1\<close>: two acquire calls in a burst both start a creation (two in
  flight, the counter at 2), and two acquire calls one after the other, each waiting for
  its session, end with two live sessions.
\<close>

theorem admission_gate_overshoot:
  "maxLimit (newPool None (Some 1)) = 1 \<and>
   creating (run [Acquire 0, Acquire 0] (newPool None (Some 1))) = [0, 1] \<and>
   newSessionsRequested (run [Acquire 0, Acquire 0] (newPool None (Some 1))) = 2 \<and>
   sessions (run [Acquire 0, CreateDone 0, Then 0, Finally 0,
                  Acquire 0, CreateDone 1, Then 1, Finally 1] (newPool None (Some 1))) = [0, 1]"
  by (simp add: pool_defs)

subsection \<open>Mutual exclusion\<close>

text \<open>
  C2. The claim: two acquire calls that both succeed never return the same session before
  a release. \<^verbatim>\<open>createSession\<close> puts the new session, still free, into the live set, and the
  creating call marks it busy only in its \<^verbatim>\<open>.then\<close> callback, one turn of the job queue
  later. An acquire call that runs in between finds the session by the scan for a free
  session and takes it; the callback then hands the same session to the creating call.
  Both promises resolve with session 0 and nobody has released it.
\<close>

theorem created_session_taken_twice:
  "settled (run [Acquire 0, CreateDone 0, Acquire 0, Then 0, Finally 0] (newPool None None))
     = [(1, Resolved 0), (0, Resolved 0)]"
  by (simp add: pool_defs)

subsection \<open>One attempt of \<^verbatim>\<open>do\<close>\<close>

lemma attempt_cases:
  obtains (ok) res s1 lg where "tryBody W opts (stampSession c opts s) = (Inr res, s1, lg)"
      "attempt W c opts s = \<lparr>reported = Result res, sessionAfter = clearStamps s1,
           actions = lg @ [ReleaseCalled]\<rparr>"
  | (failed) err s1 lg where "tryBody W opts (stampSession c opts s) = (Inl err, s1, lg)"
      "attempt W c opts s = \<lparr>reported = Failure err (isIdempotent s1), sessionAfter = clearStamps s1,
           actions = lg @ [if isBadOrBusy err then BrokenEmitted else ReleaseCalled]\<rparr>"
proof (cases "tryBody W opts (stampSession c opts s)")
  case (fields r s1 lg)
  show ?thesis
  proof (cases r)
    case (Inl err)
    with fields show ?thesis by (intro failed[of err s1 lg]) (simp_all add: attempt_def)
  next
    case (Inr res)
    with fields show ?thesis by (intro ok[of res s1 lg]) (simp_all add: attempt_def)
  qed
qed

lemma awaitTx_log: "awaitTx f a r s = (r', s', lg) \<Longrightarrow> lg = [a]"
  by (auto simp: awaitTx_def split: prod.splits option.splits)

lemma tryBody_log:
  "tryBody W opts s = (r, s1, lg) \<Longrightarrow> set lg \<subseteq> {FnCalled, RollbackCalled, CommitCalled}"
  by (auto simp: tryBody_def afterFn_def split: prod.splits sum.splits if_splits
      dest!: awaitTx_log)

lemma attempt_last_action:
  "last (actions (attempt W c opts s)) =
     (case reported (attempt W c opts s) of
        Failure e i \<Rightarrow> if isBadOrBusy e then BrokenEmitted else ReleaseCalled
      | Result r \<Rightarrow> ReleaseCalled)"
  by (cases rule: attempt_cases[of W opts c s]) simp_all

lemma attempt_signal_once:
  "ReleaseCalled \<notin> set (butlast (actions (attempt W c opts s))) \<and>
   BrokenEmitted \<notin> set (butlast (actions (attempt W c opts s)))"
  by (cases rule: attempt_cases[of W opts c s]) (auto dest!: tryBody_log)

text \<open>
  C3. The claim: when the callback throws an error that is neither BadSession nor
  SessionBusy with a transaction open, the wrapper tries a rollback first, and a failure
  of that rollback is discarded in favour of the callback's error. The rollback is awaited
  inside the \<^verbatim>\<open>catch\<close> with nothing around it, so its failure is thrown from there and
  \<^verbatim>\<open>throw err\<close> is never reached: the attempt reports the rollback's error. Below, the
  callback throws \<open>boom\<close> and the rollback fails.
\<close>

theorem rollback_failure_reported:
  "fn (someOpts None (Inl (OtherError ''boom'')))
       (stampTxSettings (someOpts None (Inl (OtherError ''boom'')))
          (stampSession 0 (someOpts None (Inl (OtherError ''boom''))) noStamps))
     = (Inl (OtherError ''boom''), noStamps\<lparr>ctxSymbol := Some 0, sessionTxId := Some ''tx1''\<rparr>) \<and>
   openTx (noStamps\<lparr>ctxSymbol := Some 0, sessionTxId := Some ''tx1''\<rparr>) \<and>
   reported (attempt (someCollaborators None (Some (OtherError ''rollback failed''))) 0
               (someOpts None (Inl (OtherError ''boom''))) noStamps)
     = Failure (OtherError ''rollback failed'') None \<and>
   reported (attempt (someCollaborators None (Some (OtherError ''rollback failed''))) 0
               (someOpts None (Inl (OtherError ''boom''))) noStamps)
     \<noteq> Failure (OtherError ''boom'') None"
  by (simp add: client_defs example_defs)

text \<open>
  C3, as amended. When the callback throws an error that is neither BadSession nor
  SessionBusy and leaves a transaction open, the attempt calls the rollback, after the
  callback and before the session is released or signalled broken; it reports the
  callback's error when the rollback succeeds and the rollback's own error when the
  rollback fails.
\<close>

theorem rollback_on_callback_failure:
  assumes "fn opts (stampTxSettings opts (stampSession c opts s)) = (Inl err, s2)"
    and "openTx s2" and "\<not> isBadOrBusy err"
  shows "\<exists>e. reported (attempt W c opts s)
               = Failure e (isIdempotent (snd (sessionRollbackTransaction W s2))) \<and>
             e = (case fst (sessionRollbackTransaction W s2) of None \<Rightarrow> err | Some e2 \<Rightarrow> e2) \<and>
             actions (attempt W c opts s)
               = [FnCalled, RollbackCalled, if isBadOrBusy e then BrokenEmitted else ReleaseCalled]"
  using assms
  by (cases "sessionRollbackTransaction W s2"; cases "fst (sessionRollbackTransaction W s2)")
     (auto simp: attempt_def tryBody_def afterFn_def awaitTx_def)

theorem rollback_on_callback_failure_witness:
  "reported (attempt (someCollaborators None None) 0
               (someOpts None (Inl (OtherError ''boom''))) noStamps)
     = Failure (OtherError ''boom'') None \<and>
   actions (attempt (someCollaborators None None) 0
               (someOpts None (Inl (OtherError ''boom''))) noStamps)
     = [FnCalled, RollbackCalled, ReleaseCalled]"
  using rollback_on_callback_failure
    [of "someOpts None (Inl (OtherError ''boom''))" 0 noStamps "OtherError ''boom''"
        "noStamps\<lparr>ctxSymbol := Some 0, sessionTxId := Some ''tx1''\<rparr>"
        "someCollaborators None None"]
  by (simp add: client_defs example_defs)

text \<open>
  C4. When the callback returns and leaves a transaction open, the attempt calls commit if
  \<open>txSettings\<close> was given in the options and rollback if it was not, on the session as the
  callback left it, after the callback and before the one action that gives the session
  back (the release, or the broken signal when that call itself failed with BadSession or
  SessionBusy). When the call succeeds the attempt reports the callback's result and
  releases the session.
\<close>

theorem open_transaction_resolved:
  assumes "fn opts (stampTxSettings opts (stampSession c opts s)) = (Inr res, s2)"
    and "openTx s2"
    and "call = (if txSettings opts \<noteq> None then sessionCommitTransaction W
                 else sessionRollbackTransaction W)"
    and "a = (if txSettings opts \<noteq> None then CommitCalled else RollbackCalled)"
  shows "(case fst (call s2) of
            None \<Rightarrow> reported (attempt W c opts s) = Result res \<and>
                    actions (attempt W c opts s) = [FnCalled, a, ReleaseCalled]
          | Some e \<Rightarrow> reported (attempt W c opts s) = Failure e (isIdempotent (snd (call s2))) \<and>
                    actions (attempt W c opts s)
                      = [FnCalled, a, if isBadOrBusy e then BrokenEmitted else ReleaseCalled]) \<and>
         sessionAfter (attempt W c opts s) = clearStamps (snd (call s2))"
  using assms
  by (cases "call s2"; cases "fst (call s2)")
     (auto simp: attempt_def tryBody_def afterFn_def awaitTx_def)

theorem open_transaction_resolved_witness:
  "actions (attempt (someCollaborators None None) 0 (someOpts (Some ''serializable'') (Inr 7))
              noStamps) = [FnCalled, CommitCalled, ReleaseCalled] \<and>
   actions (attempt (someCollaborators None None) 0 (someOpts None (Inr 7)) noStamps)
     = [FnCalled, RollbackCalled, ReleaseCalled] \<and>
   reported (attempt (someCollaborators None None) 0 (someOpts (Some ''serializable'') (Inr 7))
              noStamps) = Result 7"
  using open_transaction_resolved
    [of "someOpts (Some ''serializable'') (Inr 7)" 0 noStamps 7
        "noStamps\<lparr>ctxSymbol := Some 0, sessionTxSettings := Some ''serializable'',
                  sessionTxId := Some ''tx1''\<rparr>"
        "sessionCommitTransaction (someCollaborators None None)"
        "someCollaborators None None" CommitCalled]
    open_transaction_resolved
    [of "someOpts None (Inr 7)" 0 noStamps 7
        "noStamps\<lparr>ctxSymbol := Some 0, sessionTxId := Some ''tx1''\<rparr>"
        "sessionRollbackTransaction (someCollaborators None None)"
        "someCollaborators None None" RollbackCalled]
  by (simp add: client_defs example_defs)

subsection \<open>What a deletion does to a held session\<close>

lemma acquire_keeps_busy:
  "busy (store st p) \<Longrightarrow> busy (store (acquire b t st) p)"
  by (auto simp: acquire_def settle_def setSession_def sessionAcquire_def Let_def
           split: option.splits)

lemma acquire_handoffs: "handoffs (acquire b t st) = handoffs st"
  by (auto simp: acquire_def settle_def setSession_def Let_def split: option.splits)

lemma acquire_not_busy_session:
  assumes "busy (store st p)" and "map_of (settled (acquire b t st)) k = Some (Resolved p)"
  shows "map_of (settled st) k = Some (Resolved p)"
proof (cases "find (\<lambda>s. sessionIsFree (store st s)) (sessions st)")
  case None
  with assms show ?thesis by (auto simp: acquire_def Let_def split: if_splits)
next
  case (Some x)
  then have "sessionIsFree (store st x)" by (auto simp: find_Some_iff)
  with assms(1) have "x \<noteq> p" by (auto simp: sessionIsFree_def)
  with Some assms(2) show ?thesis
    by (auto simp: acquire_def settle_def setSession_def Let_def split: option.splits if_splits)
qed

lemma deleteSession_handoffs: "handoffs (deleteSession q st) = handoffs st"
  by (simp add: deleteSession_def Let_def acquire_handoffs)

lemma deleteSession_not_busy_session:
  assumes "busy (store st p)" and "map_of (settled (deleteSession q st)) k = Some (Resolved p)"
  shows "map_of (settled st) k = Some (Resolved p)"
  using assms acquire_not_busy_session[of "st\<lparr>sessionsBeingDeleted := sessionsBeingDeleted st + 1\<rparr>" p True 0 k]
  by (auto simp: deleteSession_def Let_def split: if_splits)

lemma deleteSession_keeps_busy:
  "busy (store st p) \<Longrightarrow> busy (store (deleteSession q st) p)"
  by (auto simp: deleteSession_def Let_def intro: acquire_keeps_busy)

lemma acquire_counters:
  "sessionsBeingDeleted (acquire b t st) = sessionsBeingDeleted st \<and>
   deleting (acquire b t st) = deleting st"
  by (auto simp: acquire_def settle_def setSession_def Let_def split: option.splits)

lemma deleteSession_starts_delete:
  assumes "\<not> sessionIsDeleted (store st p)"
  shows "sessionsBeingDeleted (deleteSession p st) = sessionsBeingDeleted st + 1 \<and>
         deleting (deleteSession p st) = deleting st @ [p]"
  using assms by (simp add: deleteSession_def Let_def acquire_counters)

lemma deleteDone_removes:
  "p \<in> set (deleting st) \<Longrightarrow> p \<notin> set (sessions (deleteDone p st)) \<and>
     sessionsBeingDeleted (deleteDone p st) = sessionsBeingDeleted st - 1"
  by (simp add: deleteDone_def setSession_def)

text \<open>
  C5. An attempt gives its session back exactly once, as its last action: by the broken
  signal when the error it reports is BadSession or SessionBusy, by a release for every
  other failure and for success. The pool's handler for the broken signal is
  \<^verbatim>\<open>deleteSession\<close>: the session, held by the attempt and so busy, is not made free, no
  waiter is called and no acquire promise is resolved with it; unless it was already
  marked deleted, the deletion counter goes up, \<^verbatim>\<open>session.delete()\<close> is started, and when
  that settles the session leaves the live set. The release is the session's
  \<^verbatim>\<open>release()\<close> with the pool's release handler.
\<close>

theorem broken_session_deleted_else_released:
  "last (actions (attempt W c opts s)) =
     (case reported (attempt W c opts s) of
        Failure e i \<Rightarrow> if isBadOrBusy e then BrokenEmitted else ReleaseCalled
      | Result r \<Rightarrow> ReleaseCalled) \<and>
   ReleaseCalled \<notin> set (butlast (actions (attempt W c opts s))) \<and>
   BrokenEmitted \<notin> set (butlast (actions (attempt W c opts s))) \<and>
   poolSees ReleaseCalled p st = release p st \<and>
   poolSees BrokenEmitted p st = deleteSession p st \<and>
   (busy (store st p) \<longrightarrow>
      \<not> sessionIsFree (store (deleteSession p st) p) \<and>
      handoffs (deleteSession p st) = handoffs st \<and>
      (\<forall>k. map_of (settled (deleteSession p st)) k = Some (Resolved p)
            \<longrightarrow> map_of (settled st) k = Some (Resolved p))) \<and>
   (\<not> sessionIsDeleted (store st p) \<longrightarrow>
      sessionsBeingDeleted (deleteSession p st) = sessionsBeingDeleted st + 1 \<and>
      p \<in> set (deleting (deleteSession p st)) \<and>
      p \<notin> set (sessions (deleteDone p (deleteSession p st))))"
proof -
  have "busy (store st p) \<Longrightarrow> \<not> sessionIsFree (store (deleteSession p st) p)"
    using deleteSession_keeps_busy[of st p p] by (simp add: sessionIsFree_def)
  moreover have "\<not> sessionIsDeleted (store st p) \<Longrightarrow>
      p \<notin> set (sessions (deleteDone p (deleteSession p st)))"
    using deleteSession_starts_delete[of st p] deleteDone_removes[of p "deleteSession p st"]
    by simp
  ultimately show ?thesis
    using attempt_last_action[of W c opts s] attempt_signal_once[of W c opts s]
      deleteSession_handoffs[of p st] deleteSession_not_busy_session[of st p p]
      deleteSession_starts_delete[of st p]
    by auto
qed

theorem broken_session_deleted_else_released_witness:
  "busy (store twoBusySessions 0) \<and> \<not> sessionIsDeleted (store twoBusySessions 0) \<and>
   actions (attempt (someCollaborators None None) 0 (someOpts None (Inl BadSession)) noStamps)
     = [FnCalled, BrokenEmitted] \<and>
   actions (attempt (someCollaborators None None) 0 (someOpts None (Inl SessionPoolEmpty)) noStamps)
     = [FnCalled, RollbackCalled, ReleaseCalled] \<and>
   \<not> sessionIsFree (store (poolSees BrokenEmitted 0 twoBusySessions) 0) \<and>
   handoffs (poolSees BrokenEmitted 0 twoBusySessions) = [] \<and>
   deleting (poolSees BrokenEmitted 0 twoBusySessions) = [0] \<and>
   sessions (deleteDone 0 (poolSees BrokenEmitted 0 twoBusySessions)) = [1]"
  using broken_session_deleted_else_released
    [of "someCollaborators None None" 0 "someOpts None (Inl BadSession)" noStamps 0
        twoBusySessions]
  by (simp add: twoBusySessions_def pool_defs client_defs example_defs)

subsection \<open>\<^verbatim>\<open>doTx\<close>\<close>

lemma ensureContext_cases:
  obtains (given) c where "ctx (object h ref) = Some c" "ensureContext W ref h = (c, ref, h)"
  | (written) "ctx (object h ref) = None" "ensureContextInPlace W"
      "ensureContext W ref h =
         (newContext W (contextsMade h), ref,
          h\<lparr>contextsMade := Suc (contextsMade h),
            object := (object h)(ref := (object h ref)\<lparr>ctx := Some (newContext W (contextsMade h))\<rparr>)\<rparr>)"
  | (copied) "ctx (object h ref) = None" "\<not> ensureContextInPlace W"
      "ensureContext W ref h =
         (newContext W (contextsMade h), nextRef h,
          h\<lparr>contextsMade := Suc (contextsMade h),
            object := (object h)
              (nextRef h := (object h ref)\<lparr>ctx := Some (newContext W (contextsMade h))\<rparr>),
            nextRef := Suc (nextRef h)\<rparr>)"
proof (cases "ctx (object h ref)")
  case (Some c)
  then show ?thesis by (intro given[of c]) (simp_all add: ensureContext_def)
next
  case None
  show ?thesis
  proof (cases "ensureContextInPlace W")
    case True
    with None show ?thesis by (intro written) (simp_all add: ensureContext_def Let_def)
  next
    case False
    with None show ?thesis by (intro copied) (simp_all add: ensureContext_def Let_def)
  qed
qed

lemma ctx_txSettings_commute:
  "opts\<lparr>txSettings := t, ctx := c\<rparr> = opts\<lparr>ctx := c, txSettings := t\<rparr>"
  by (cases opts) simp

text \<open>
  C9. The claim: \<^verbatim>\<open>doTx\<close> on options without \<open>txSettings\<close> is \<^verbatim>\<open>do\<close> on the options extended
  with the default, without mutating the caller's object; on options with \<open>txSettings\<close> it
  is \<^verbatim>\<open>do\<close> on the same options. The spread of \<^verbatim>\<open>doTx\<close> leaves the caller's object alone,
  but \<^verbatim>\<open>doTx\<close> is decorated with \<^verbatim>\<open>ensureContext\<close>, as \<^verbatim>\<open>do\<close> is, and \<open>ctx\<close> is optional: with
  a decorator that writes the context it makes into the options object it was given, a
  call of \<^verbatim>\<open>doTx\<close> on options without a context leaves the caller's object with one.
\<close>

theorem doTx_writes_context:
  "ctx (object (bareObjects None) 0) = None \<and>
   ctx (object (snd (doTx (someCollaborators None None) 0 (bareObjects None))) 0) = Some 100 \<and>
   object (snd (doTx (someCollaborators None None) 0 (bareObjects None))) 0
     \<noteq> object (bareObjects None) 0"
proof -
  have a: "ctx (object (bareObjects None) 0) = None"
    by (simp add: example_defs)
  have b: "ctx (object (snd (doTx (someCollaborators None None) 0 (bareObjects None))) 0)
             = Some 100"
    by (simp add: doTx_def do_def ensureContext_def Let_def example_defs)
  from a b have "object (snd (doTx (someCollaborators None None) 0 (bareObjects None))) 0
     \<noteq> object (bareObjects None) 0"
    by auto
  with a b show ?thesis by blast
qed

text \<open>
  C9, as amended. For a caller's options object without \<open>txSettings\<close>, \<^verbatim>\<open>doTx\<close> gives what
  \<^verbatim>\<open>do\<close> gives on that object extended with \<^verbatim>\<open>AUTO_TX.beginTx\<close> as \<open>txSettings\<close>; the
  extension is made on a new object, so the caller's object gets no \<open>txSettings\<close> and is
  afterwards what a call of \<^verbatim>\<open>do\<close> on it leaves (the decorator of both may have written a
  context into it). For an object with \<open>txSettings\<close>, \<^verbatim>\<open>doTx\<close> is \<^verbatim>\<open>do\<close> on the same object.
  This holds whichever context the decorator makes and wherever it writes it.
\<close>

theorem doTx_defaults_txSettings:
  assumes "ref < nextRef h"
  shows "(txSettings (object h ref) = None \<longrightarrow>
            fst (doTx W ref h)
              = fst (do W ref (h\<lparr>object := (object h)
                     (ref := (object h ref)\<lparr>txSettings := Some (AUTO_TX_beginTx W)\<rparr>)\<rparr>)) \<and>
            object (snd (doTx W ref h)) ref = object (snd (do W ref h)) ref \<and>
            txSettings (object (snd (doTx W ref h)) ref) = None) \<and>
         (txSettings (object h ref) \<noteq> None \<longrightarrow> doTx W ref h = do W ref h)"
proof (cases rule: ensureContext_cases[of h ref W])
  case (given c)
  with assms show ?thesis
    by (auto simp: doTx_def do_def ensureContext_def Let_def)
next
  case written
  with assms show ?thesis
    by (auto simp: doTx_def do_def ensureContext_def Let_def ctx_txSettings_commute)
next
  case copied
  with assms show ?thesis
    by (auto simp: doTx_def do_def ensureContext_def Let_def ctx_txSettings_commute)
qed

theorem doTx_defaults_txSettings_witness:
  "0 < nextRef (bareObjects None) \<and>
   txSettings (object (bareObjects None) 0) = None \<and>
   fst (doTx (someCollaborators None None) 0 (bareObjects None)) = Inr 7 \<and>
   fst (do (someCollaborators None None) 0 (bareObjects (Some ''beginTx''))) = Inr 7 \<and>
   txSettings (object (snd (doTx (someCollaborators None None) 0 (bareObjects None))) 0) = None \<and>
   ctx (object (snd (do (someCollaborators None None) 0 (bareObjects None))) 0) = Some 100 \<and>
   doTx (someCollaborators None None) 0 (someObjects (Some ''snapshot''))
     = do (someCollaborators None None) 0 (someObjects (Some ''snapshot''))"
  using doTx_defaults_txSettings[of 0 "bareObjects None" "someCollaborators None None"]
    doTx_defaults_txSettings[of 0 "someObjects (Some ''snapshot'')" "someCollaborators None None"]
  by (simp add: doTx_def do_def doBody_def ensureContext_def client_defs example_defs Let_def)

subsection \<open>The waiter queue\<close>

lemma run_append: "run (xs @ ys) st = run ys (run xs st)"
  by (induction xs arbitrary: st) simp_all

lemma acquire_enqueues:
  assumes "blocked st"
  shows "waiters (acquire b t st) = waiters st @ [nextCall st]"
    and "timers (acquire b t st) = (if t \<noteq> 0 then timers st @ [nextCall st] else timers st)"
    and "nextCall (acquire b t st) = Suc (nextCall st)"
    and "handoffs (acquire b t st) = handoffs st"
    and "store (acquire b t st) = store st"
    and "settled (acquire b t st) = settled st"
    and "blocked (acquire b t st)"
  using assms by (simp_all add: acquire_def blocked_def gateOpen_def Let_def)

lemma run_acquires:
  "blocked st \<Longrightarrow>
     waiters (run (map Acquire ts) st) = waiters st @ [nextCall st ..< nextCall st + length ts] \<and>
     handoffs (run (map Acquire ts) st) = handoffs st \<and>
     store (run (map Acquire ts) st) = store st"
proof (induction ts arbitrary: st)
  case Nil
  then show ?case by simp
next
  case (Cons t ts)
  from Cons.prems have b: "blocked (acquire False t st)" by (rule acquire_enqueues)
  have u: "[nextCall st ..< nextCall st + length (t # ts)]
             = nextCall st # [Suc (nextCall st) ..< Suc (nextCall st) + length ts]"
    by (simp add: upt_rec)
  have "waiters (run (map Acquire (t # ts)) st)
          = (waiters st @ [nextCall st]) @ [Suc (nextCall st) ..< Suc (nextCall st) + length ts]"
    using Cons.IH[OF b] acquire_enqueues(1,3)[OF Cons.prems, of False t] by simp
  then have "waiters (run (map Acquire (t # ts)) st)
          = waiters st @ [nextCall st ..< nextCall st + length (t # ts)]"
    by (simp only: u append_assoc append_Cons append_Nil)
  moreover have "handoffs (run (map Acquire (t # ts)) st) = handoffs st"
    using Cons.IH[OF b] acquire_enqueues(4)[OF Cons.prems, of False t] by simp
  moreover have "store (run (map Acquire (t # ts)) st) = store st"
    using Cons.IH[OF b] acquire_enqueues(5)[OF Cons.prems, of False t] by simp
  ultimately show ?case by blast
qed

lemma release_to_waiter:
  assumes "\<not> sessionIsClosing (store st s)" and "waiters st = w # ws"
  shows "handoffs (release s st) = handoffs st @ [(w, s)]"
    and "waiters (release s st) = ws"
    and "sessionIsClosing (store (release s st) x) = sessionIsClosing (store st x)"
  using assms
  by (auto simp: release_def maybeUseSession_def callWaiter_def settle_def setSession_def
        sessionRelease_def sessionIsClosing_def sessionAcquire_def Let_def split: option.splits)

lemma run_releases:
  "\<forall>s\<in>set ss. \<not> sessionIsClosing (store st s) \<Longrightarrow> length ss \<le> length (waiters st) \<Longrightarrow>
     handoffs (run (map Release ss) st) = handoffs st @ zip (waiters st) ss \<and>
     waiters (run (map Release ss) st) = drop (length ss) (waiters st)"
proof (induction ss arbitrary: st)
  case Nil
  then show ?case by simp
next
  case (Cons s ss)
  then obtain w ws where w: "waiters st = w # ws" by (cases "waiters st") auto
  from Cons.prems have nc: "\<not> sessionIsClosing (store st s)" by simp
  note r = release_to_waiter[OF nc w]
  have "\<forall>x\<in>set ss. \<not> sessionIsClosing (store (release s st) x)"
    using Cons.prems(1) r(3) by simp
  moreover have "length ss \<le> length (waiters (release s st))"
    using Cons.prems(2) w r(2) by simp
  ultimately show ?case
    using Cons.IH[of "release s st"] r(1,2) w by simp
qed

subsection \<open>Deletion with waiters pending\<close>

text \<open>
  C8. The claim: a session being deleted is never handed to a waiter; the pool issues a
  fresh acquire for the waiter instead. \<^verbatim>\<open>deleteSession\<close> makes that acquire before it calls
  \<^verbatim>\<open>session.delete()\<close>, and the acquire scans the live set, the session being deleted
  included: when that session is free, the acquire returns the session itself and the
  callback hands it to the waiter. With \<open>maxLimit = 1\<close>: two acquire calls start creations
  and a third queues as waiter 2; the first creation ends, session 0 is in the live set
  and free; \<^verbatim>\<open>destroy()\<close> deletes it with the waiter pending; \<^verbatim>\<open>deleteSession\<close>'s own acquire
  (call 3) resolves with session 0, and its callback hands session 0, whose deletion is in
  flight, to waiter 2.
\<close>

theorem deleted_session_handed_to_waiter:
  "waiters (run [Acquire 0, Acquire 0, Acquire 0, CreateDone 0] (newPool None (Some 1))) = [2] \<and>
   sessionIsFree
     (store (run [Acquire 0, Acquire 0, Acquire 0, CreateDone 0] (newPool None (Some 1))) 0) \<and>
   deleting (run [Acquire 0, Acquire 0, Acquire 0, CreateDone 0, Destroy]
               (newPool None (Some 1))) = [0] \<and>
   map_of (settled (run [Acquire 0, Acquire 0, Acquire 0, CreateDone 0, Destroy]
                      (newPool None (Some 1)))) 3 = Some (Resolved 0) \<and>
   handoffs (run [Acquire 0, Acquire 0, Acquire 0, CreateDone 0, Destroy, Continue 3]
               (newPool None (Some 1))) = [(2, 0)] \<and>
   map_of (settled (run [Acquire 0, Acquire 0, Acquire 0, CreateDone 0, Destroy, Continue 3]
                      (newPool None (Some 1)))) 2 = Some (Resolved 0) \<and>
   deleting (run [Acquire 0, Acquire 0, Acquire 0, CreateDone 0, Destroy, Continue 3]
               (newPool None (Some 1))) = [0]"
  by (simp add: pool_defs)

subsection \<open>Invariants of the queue\<close>

lemma indexOf_bounds: "c \<in> set ws \<Longrightarrow> 0 \<le> indexOf ws c \<and> indexOf ws c < int (length ws)"
  by (induction ws) (auto simp: Let_def)

lemma splice1_in_range:
  "0 \<le> i \<Longrightarrow> i < int (length xs) \<Longrightarrow> splice1 i xs = take (nat i) xs @ drop (Suc (nat i)) xs"
  by (simp add: splice1_def Let_def)

lemma splice1_indexOf: "c \<in> set ws \<Longrightarrow> splice1 (indexOf ws c) ws = remove1 c ws"
proof (induction ws)
  case Nil
  then show ?case by simp
next
  case (Cons y ys)
  show ?case
  proof (cases "c = y")
    case True
    then show ?thesis by (simp add: splice1_def)
  next
    case False
    with Cons.prems have in_ys: "c \<in> set ys" by simp
    note b = indexOf_bounds[OF in_ys]
    have "splice1 (indexOf ys c + 1) (y # ys) = y # splice1 (indexOf ys c) ys"
      using b by (simp add: splice1_in_range nat_add_distrib)
    with False b Cons.IH[OF in_ys] show ?thesis by (simp add: Let_def)
  qed
qed

lemma wellFormedI:
  assumes "wellFormed st"
    and "distinct (waiters st) \<Longrightarrow> distinct (waiters st')"
    and "set (timers st') \<subseteq> set (waiters st')"
    and "set (waiters st') \<inter> doneCalls st' = {}"
    and "set (waiters st') \<union> doneCalls st' \<subseteq> {..< nextCall st'}"
  shows "wellFormed st'"
  using assms by (simp add: wellFormed_def)

lemma wellFormedD:
  assumes "wellFormed st"
  shows "distinct (waiters st)" "set (timers st) \<subseteq> set (waiters st)"
    "set (waiters st) \<inter> doneCalls st = {}"
    "set (waiters st) \<subseteq> {..< nextCall st}" "doneCalls st \<subseteq> {..< nextCall st}"
  using assms by (simp_all add: wellFormed_def)

lemma settle_fields [simp]:
  "waiters (settle c r st) = waiters st" "timers (settle c r st) = timers st"
  "nextCall (settle c r st) = nextCall st" "store (settle c r st) = store st"
  "internal (settle c r st) = internal st" "handoffs (settle c r st) = handoffs st"
  "creating (settle c r st) = creating st" "created (settle c r st) = created st"
  "finishing (settle c r st) = finishing st" "sessions (settle c r st) = sessions st"
  by (auto simp: settle_def split: option.splits)

lemma keys_settle [simp]:
  "fst ` set (settled (settle c r st)) = insert c (fst ` set (settled st))"
  by (auto simp: settle_def map_of_eq_None_iff split: option.splits
      dest: map_of_SomeD intro: rev_image_eqI)

lemma keys_remove1: "fst ` set (remove1 p xs) \<subseteq> fst ` set xs"
  using set_remove1_subset[of p xs] by blast

lemma keys_map_of: "map_of xs c = Some v \<Longrightarrow> c \<in> fst ` set xs"
  by (auto dest: map_of_SomeD intro: rev_image_eqI)

lemma doneCalls_settle [simp]: "doneCalls (settle c r st) = insert c (doneCalls st)"
  by (auto simp: doneCalls_def)

lemma setSession_fields [simp]:
  "waiters (setSession s v st) = waiters st" "timers (setSession s v st) = timers st"
  "nextCall (setSession s v st) = nextCall st" "doneCalls (setSession s v st) = doneCalls st"
  "settled (setSession s v st) = settled st" "handoffs (setSession s v st) = handoffs st"
  "internal (setSession s v st) = internal st" "creating (setSession s v st) = creating st"
  "created (setSession s v st) = created st" "finishing (setSession s v st) = finishing st"
  "sessions (setSession s v st) = sessions st"
  by (simp_all add: setSession_def doneCalls_def)

lemma acquire_cases:
  obtains (free) s where "find (\<lambda>s. sessionIsFree (store st s)) (sessions st) = Some s"
      "waiters (acquire b t st) = waiters st" "timers (acquire b t st) = timers st"
      "nextCall (acquire b t st) = Suc (nextCall st)"
      "doneCalls (acquire b t st) = insert (nextCall st) (doneCalls st)"
      "handoffs (acquire b t st) = handoffs st"
  | (create) "find (\<lambda>s. sessionIsFree (store st s)) (sessions st) = None"
      "waiters (acquire b t st) = waiters st" "timers (acquire b t st) = timers st"
      "nextCall (acquire b t st) = Suc (nextCall st)"
      "doneCalls (acquire b t st) = insert (nextCall st) (doneCalls st)"
      "handoffs (acquire b t st) = handoffs st" "settled (acquire b t st) = settled st"
  | (wait) "find (\<lambda>s. sessionIsFree (store st s)) (sessions st) = None"
      "waiters (acquire b t st) = waiters st @ [nextCall st]"
      "timers (acquire b t st) = (if t \<noteq> 0 then timers st @ [nextCall st] else timers st)"
      "nextCall (acquire b t st) = Suc (nextCall st)"
      "doneCalls (acquire b t st) = doneCalls st"
      "handoffs (acquire b t st) = handoffs st" "settled (acquire b t st) = settled st"
proof (cases "find (\<lambda>s. sessionIsFree (store st s)) (sessions st)")
  case (Some s)
  then show ?thesis
    by (intro free[of s]) (simp_all add: acquire_def Let_def, simp_all add: doneCalls_def)
next
  case None
  show ?thesis
  proof (cases "gateOpen st")
    case True
    with None show ?thesis
      by (intro create) (simp_all add: acquire_def Let_def gateOpen_def doneCalls_def)
  next
    case False
    with None show ?thesis
      by (intro wait) (simp_all add: acquire_def Let_def gateOpen_def doneCalls_def)
  qed
qed

lemma wellFormed_acquire: "wellFormed st \<Longrightarrow> wellFormed (acquire b t st)"
proof (cases rule: acquire_cases[of st b t])
  case (free s)
  assume w: "wellFormed st"
  show ?thesis using wellFormedD[OF w] free by (intro wellFormedI[OF w]) auto
next
  case create
  assume w: "wellFormed st"
  show ?thesis using wellFormedD[OF w] create by (intro wellFormedI[OF w]) auto
next
  case wait
  assume w: "wellFormed st"
  show ?thesis using wellFormedD[OF w] wait by (intro wellFormedI[OF w]) auto
qed

lemma callWaiter_fields:
  "waiters (callWaiter w s st) = waiters st" "timers (callWaiter w s st) = removeAll w (timers st)"
  "nextCall (callWaiter w s st) = nextCall st"
  "doneCalls (callWaiter w s st) = insert w (doneCalls st)"
  "handoffs (callWaiter w s st) = handoffs st @ [(w, s)]"
  by (auto simp: callWaiter_def doneCalls_def)

lemma doneCalls_waiters [simp]: "doneCalls (st\<lparr>waiters := ws\<rparr>) = doneCalls st"
  by (simp add: doneCalls_def)

lemma wellFormed_maybeUseSession: "wellFormed st \<Longrightarrow> wellFormed (snd (maybeUseSession s st))"
proof (cases "waiters st")
  case Nil
  assume "wellFormed st"
  with Nil show ?thesis by (simp add: maybeUseSession_def)
next
  case (Cons w ws)
  assume w: "wellFormed st"
  show ?thesis
    using wellFormedD[OF w] Cons
    by (intro wellFormedI[OF w]) (auto simp: maybeUseSession_def callWaiter_fields)
qed

lemma wellFormed_counter [simp]: "wellFormed (st\<lparr>sessionsBeingDeleted := n\<rparr>) = wellFormed st"
  "wellFormed (st\<lparr>deleting := d\<rparr>) = wellFormed st" "wellFormed (st\<lparr>internal := i\<rparr>) = wellFormed st"
  "wellFormed (setSession s v st) = wellFormed st"
  by (simp_all add: wellFormed_def doneCalls_def setSession_def)

lemma wellFormed_deleteSession: "wellFormed st \<Longrightarrow> wellFormed (deleteSession s st)"
  by (simp add: deleteSession_def Let_def wellFormed_acquire)

lemma wellFormed_destroy: "wellFormed st \<Longrightarrow> wellFormed (destroy st)"
proof -
  have "wellFormed st \<Longrightarrow> wellFormed (fold deleteSession xs st)" for xs
    by (induction xs arbitrary: st) (simp_all add: wellFormed_deleteSession)
  then show "wellFormed st \<Longrightarrow> wellFormed (destroy st)"
    by (simp add: destroy_def)
qed

lemma wellFormed_emit: "wellFormed st \<Longrightarrow> wellFormed (emit ev s st)"
  by (cases ev) (simp_all add: wellFormed_deleteSession wellFormed_maybeUseSession)

lemma wellFormed_release: "wellFormed st \<Longrightarrow> wellFormed (release s st)"
  using wellFormed_emit[of "setSession s (sessionRelease (store st s)) st" SESSION_RELEASE s]
  by (simp add: release_def del: emit.simps)

lemma wellFormed_createDone: "wellFormed st \<Longrightarrow> wellFormed (createDone c st)"
proof -
  assume w: "wellFormed st"
  have "doneCalls (createDone c st) \<subseteq> doneCalls st"
    using set_remove1_subset[of c "creating st"]
    by (auto simp: createDone_def doneCalls_def setSession_def Let_def)
  moreover have "waiters (createDone c st) = waiters st" "timers (createDone c st) = timers st"
    "nextCall (createDone c st) = nextCall st"
    by (simp_all add: createDone_def setSession_def Let_def)
  ultimately show ?thesis using wellFormedD[OF w] by (intro wellFormedI[OF w]) auto
qed

lemma wellFormed_createFail: "wellFormed st \<Longrightarrow> wellFormed (createFail c e st)"
proof -
  assume w: "wellFormed st"
  have "doneCalls (createFail c e st) \<subseteq> doneCalls st"
    using set_remove1_subset[of c "creating st"]
    by (auto simp: createFail_def doneCalls_def)
  moreover have "waiters (createFail c e st) = waiters st" "timers (createFail c e st) = timers st"
    "nextCall (createFail c e st) = nextCall st"
    by (simp_all add: createFail_def)
  ultimately show ?thesis using wellFormedD[OF w] by (intro wellFormedI[OF w]) auto
qed

lemma wellFormed_thenCallback: "wellFormed st \<Longrightarrow> wellFormed (thenCallback c st)"
proof -
  assume w: "wellFormed st"
  have "doneCalls (thenCallback c st) \<subseteq> doneCalls st"
  proof (cases "map_of (created st) c")
    case None
    then show ?thesis by (simp add: thenCallback_def)
  next
    case (Some x)
    then show ?thesis
      using keys_remove1[of "(c, x)" "created st"] keys_map_of[OF Some]
      by (auto simp: thenCallback_def doneCalls_def setSession_def)
  qed
  moreover have "waiters (thenCallback c st) = waiters st"
    "timers (thenCallback c st) = timers st" "nextCall (thenCallback c st) = nextCall st"
    by (simp_all add: thenCallback_def setSession_def split: option.splits)
  ultimately show ?thesis using wellFormedD[OF w] by (intro wellFormedI[OF w]) auto
qed

lemma wellFormed_finallyCallback: "wellFormed st \<Longrightarrow> wellFormed (finallyCallback c st)"
proof -
  assume w: "wellFormed st"
  have "doneCalls (finallyCallback c st) \<subseteq> doneCalls st"
  proof (cases "map_of (finishing st) c")
    case None
    then show ?thesis by (simp add: finallyCallback_def)
  next
    case (Some r)
    then show ?thesis
      using keys_remove1[of "(c, r)" "finishing st"] keys_map_of[OF Some]
      by (auto simp: finallyCallback_def doneCalls_def)
  qed
  moreover have "waiters (finallyCallback c st) = waiters st"
    "timers (finallyCallback c st) = timers st" "nextCall (finallyCallback c st) = nextCall st"
    by (simp_all add: finallyCallback_def split: option.splits)
  ultimately show ?thesis using wellFormedD[OF w] by (intro wellFormedI[OF w]) auto
qed

lemma wellFormed_streamClosed: "wellFormed st \<Longrightarrow> wellFormed (streamClosed s st)"
  by (simp add: streamClosed_def)

lemma wellFormed_deleteDone: "wellFormed st \<Longrightarrow> wellFormed (deleteDone s st)"
  by (simp add: deleteDone_def wellFormed_def doneCalls_def setSession_def)

lemma timeoutFired_fields:
  assumes "wellFormed st" "c \<in> set (timers st)"
  shows "waiters (timeoutFired c st) = remove1 c (waiters st)"
    "timers (timeoutFired c st) = removeAll c (timers st)"
    "nextCall (timeoutFired c st) = nextCall st"
    "doneCalls (timeoutFired c st) = insert c (doneCalls st)"
    "handoffs (timeoutFired c st) = handoffs st"
proof -
  from assms have "c \<in> set (waiters st)" using wellFormedD(2) by blast
  then have "splice1 (indexOf (waiters st) c) (waiters st) = remove1 c (waiters st)"
    by (rule splice1_indexOf)
  with assms(2) show "waiters (timeoutFired c st) = remove1 c (waiters st)"
    "timers (timeoutFired c st) = removeAll c (timers st)"
    "nextCall (timeoutFired c st) = nextCall st"
    "doneCalls (timeoutFired c st) = insert c (doneCalls st)"
    "handoffs (timeoutFired c st) = handoffs st"
    by (simp_all add: timeoutFired_def, simp add: doneCalls_def)
qed

lemma wellFormed_timeoutFired: "wellFormed st \<Longrightarrow> wellFormed (timeoutFired c st)"
proof (cases "c \<in> set (timers st)")
  case False
  assume "wellFormed st"
  with False show ?thesis by (simp add: timeoutFired_def)
next
  case True
  assume w: "wellFormed st"
  from wellFormedD(2)[OF w] True have cw: "c \<in> set (waiters st)" by blast
  with wellFormedD(4)[OF w] have "c < nextCall st" by blast
  then show ?thesis
    using wellFormedD[OF w] timeoutFired_fields[OF w True] cw
    by (intro wellFormedI[OF w]) auto
qed

lemma wellFormed_continueDelete: "wellFormed st \<Longrightarrow> wellFormed (continueDelete c st)"
  using wellFormed_maybeUseSession[of "st\<lparr>internal := removeAll c (internal st)\<rparr>"]
    wellFormed_release[of "st\<lparr>internal := removeAll c (internal st)\<rparr>"]
  by (auto simp: continueDelete_def Let_def split: option.splits outcome.splits)

lemma wellFormed_step: "wellFormed st \<Longrightarrow> wellFormed (step e st)"
  by (cases e)
     (simp_all add: wellFormed_acquire wellFormed_createDone wellFormed_createFail wellFormed_thenCallback wellFormed_finallyCallback
        wellFormed_release wellFormed_deleteSession wellFormed_streamClosed
        wellFormed_deleteDone wellFormed_timeoutFired wellFormed_continueDelete
        wellFormed_destroy)

lemma wellFormed_run: "wellFormed st \<Longrightarrow> wellFormed (run es st)"
  by (induction es arbitrary: st) (simp_all add: wellFormed_step)

lemma wellFormed_newPool: "wellFormed (newPool a b)"
  by (simp add: wellFormed_def newPool_def doneCalls_def)

subsection \<open>Settled promises stay settled\<close>

lemma settle_keeps: "map_of (settled st) k = Some v \<Longrightarrow> map_of (settled (settle c r st)) k = Some v"
  by (auto simp: settle_def split: option.splits)

lemma acquire_keeps: "map_of (settled st) k = Some v \<Longrightarrow> map_of (settled (acquire b t st)) k = Some v"
  by (auto simp: acquire_def Let_def settle_def setSession_def split: option.splits)

lemma maybeUseSession_keeps:
  "map_of (settled st) k = Some v \<Longrightarrow> map_of (settled (snd (maybeUseSession s st))) k = Some v"
  by (auto simp: maybeUseSession_def callWaiter_def settle_def setSession_def
      split: list.splits option.splits)

lemma deleteSession_keeps:
  "map_of (settled st) k = Some v \<Longrightarrow> map_of (settled (deleteSession s st)) k = Some v"
  by (simp add: deleteSession_def Let_def acquire_keeps)

lemma destroy_keeps:
  "map_of (settled st) k = Some v \<Longrightarrow> map_of (settled (destroy st)) k = Some v"
proof -
  have "map_of (settled st) k = Some v \<Longrightarrow>
      map_of (settled (fold deleteSession xs st)) k = Some v" for xs
    by (induction xs arbitrary: st) (simp_all add: deleteSession_keeps)
  then show "map_of (settled st) k = Some v \<Longrightarrow> map_of (settled (destroy st)) k = Some v"
    by (simp add: destroy_def)
qed

lemma emit_keeps:
  "map_of (settled st) k = Some v \<Longrightarrow> map_of (settled (emit ev s st)) k = Some v"
  by (cases ev) (simp_all add: deleteSession_keeps maybeUseSession_keeps)

lemma release_keeps:
  "map_of (settled st) k = Some v \<Longrightarrow> map_of (settled (release s st)) k = Some v"
  using emit_keeps[of "setSession s (sessionRelease (store st s)) st" k v SESSION_RELEASE s]
  by (simp add: release_def del: emit.simps)

lemma continueDelete_keeps:
  "map_of (settled st) k = Some v \<Longrightarrow> map_of (settled (continueDelete c st)) k = Some v"
  using maybeUseSession_keeps[of "st\<lparr>internal := removeAll c (internal st)\<rparr>" k v]
    release_keeps[of "st\<lparr>internal := removeAll c (internal st)\<rparr>" k v]
  by (auto simp: continueDelete_def Let_def split: option.splits outcome.splits)

lemma step_keeps: "map_of (settled st) k = Some v \<Longrightarrow> map_of (settled (step e st)) k = Some v"
proof (cases e)
  case (Finally c)
  assume "map_of (settled st) k = Some v"
  with Finally show ?thesis
    by (auto simp: finallyCallback_def settle_def split: option.splits)
next
  case (Timeout c)
  assume "map_of (settled st) k = Some v"
  with Timeout show ?thesis
    by (auto simp: timeoutFired_def settle_def split: option.splits)
qed (simp_all add: acquire_keeps createDone_def createFail_def thenCallback_def setSession_def
      release_keeps deleteSession_keeps streamClosed_def deleteDone_def continueDelete_keeps
      destroy_keeps Let_def split: option.splits)

lemma run_keeps: "map_of (settled st) k = Some v \<Longrightarrow> map_of (settled (run es st)) k = Some v"
  by (induction es arbitrary: st) (simp_all add: step_keeps)

subsection \<open>A call that left the queue never comes back\<close>

lemma gone_frame:
  assumes "gone c st" "nextCall st' = nextCall st" "waiters st' = waiters st"
    "timers st' = timers st" "handoffs st' = handoffs st"
  shows "gone c st'"
  using assms by (simp add: gone_def)

lemma gone_acquire: "gone c st \<Longrightarrow> gone c (acquire b t st)"
  by (cases rule: acquire_cases[of st b t]) (auto simp: gone_def)

lemma gone_maybeUseSession: "gone c st \<Longrightarrow> gone c (snd (maybeUseSession s st))"
  by (cases "waiters st") (auto simp: gone_def maybeUseSession_def callWaiter_fields)

lemma gone_deleteSession: "gone c st \<Longrightarrow> gone c (deleteSession s st)"
  using gone_acquire[of c "st\<lparr>sessionsBeingDeleted := sessionsBeingDeleted st + 1\<rparr>" True 0]
  by (auto simp: deleteSession_def Let_def gone_def)

lemma gone_destroy: "gone c st \<Longrightarrow> gone c (destroy st)"
proof -
  have "gone c st \<Longrightarrow> gone c (fold deleteSession xs st)" for xs
    by (induction xs arbitrary: st) (simp_all add: gone_deleteSession)
  then show "gone c st \<Longrightarrow> gone c (destroy st)"
    by (simp add: destroy_def)
qed

lemma gone_emit: "gone c st \<Longrightarrow> gone c (emit ev s st)"
  by (cases ev) (simp_all add: gone_deleteSession gone_maybeUseSession)

lemma gone_release: "gone c st \<Longrightarrow> gone c (release s st)"
  using gone_emit[of c "setSession s (sessionRelease (store st s)) st" SESSION_RELEASE s]
  by (simp add: release_def gone_def del: emit.simps)

lemma set_splice1: "set (splice1 i xs) \<subseteq> set xs"
  using set_take_subset[of "nat (if i < 0 then max (int (length xs) + i) 0 else min i (int (length xs)))" xs]
    set_drop_subset[of "Suc (nat (if i < 0 then max (int (length xs) + i) 0 else min i (int (length xs))))" xs]
  by (auto simp: splice1_def Let_def)

lemma gone_timeoutFired: "gone c st \<Longrightarrow> gone c (timeoutFired k st)"
  using set_splice1[of "indexOf (waiters st) k" "waiters st"]
  by (auto simp: gone_def timeoutFired_def)

lemma gone_continueDelete: "gone c st \<Longrightarrow> gone c (continueDelete k st)"
  using gone_maybeUseSession[of c "st\<lparr>internal := removeAll k (internal st)\<rparr>"]
    gone_release[of c "st\<lparr>internal := removeAll k (internal st)\<rparr>"]
  by (auto simp: continueDelete_def Let_def gone_def split: option.splits outcome.splits)

lemma gone_step: "gone c st \<Longrightarrow> gone c (step e st)"
proof (cases e)
  case (CreateDone k)
  assume "gone c st" then show ?thesis unfolding CreateDone
    by (auto simp: gone_def createDone_def setSession_def Let_def)
next
  case (CreateFail k x)
  assume "gone c st" then show ?thesis unfolding CreateFail
    by (auto simp: gone_def createFail_def)
next
  case (Then k)
  assume "gone c st" then show ?thesis unfolding Then
    by (auto simp: gone_def thenCallback_def setSession_def split: option.splits)
next
  case (Finally k)
  assume "gone c st" then show ?thesis unfolding Finally
    by (auto simp: gone_def finallyCallback_def split: option.splits)
next
  case (StreamClosed k)
  assume "gone c st" then show ?thesis unfolding StreamClosed
    by (auto simp: gone_def streamClosed_def)
next
  case (DeleteDone k)
  assume "gone c st" then show ?thesis unfolding DeleteDone
    by (auto simp: gone_def deleteDone_def setSession_def)
qed (simp_all add: gone_acquire gone_release gone_deleteSession gone_timeoutFired
      gone_continueDelete gone_destroy)

lemma gone_run: "gone c st \<Longrightarrow> gone c (run es st)"
  by (induction es arbitrary: st) (simp_all add: gone_step)

lemma timeoutFired_rejects:
  assumes "wellFormed st" "c \<in> set (timers st)"
  shows "gone c (timeoutFired c st)"
    and "map_of (settled (timeoutFired c st)) c = Some (Rejected SessionPoolEmpty)"
proof -
  from wellFormedD(2)[OF assms(1)] assms(2) have cw: "c \<in> set (waiters st)" by blast
  with wellFormedD(3,4)[OF assms(1)] have lt: "c < nextCall st" and nd: "c \<notin> doneCalls st" by auto
  from nd have "c \<notin> fst ` set (settled st)" "c \<notin> handed st" by (simp_all add: doneCalls_def)
  then have un: "map_of (settled st) c = None" "c \<notin> handed st"
    by (simp_all add: map_of_eq_None_iff)
  show "gone c (timeoutFired c st)"
    using timeoutFired_fields[OF assms] wellFormedD(1)[OF assms(1)] lt un(2)
    by (simp add: gone_def)
  show "map_of (settled (timeoutFired c st)) c = Some (Rejected SessionPoolEmpty)"
    using assms(2) un(1) by (simp add: timeoutFired_def settle_def map_add_def)
qed

subsection \<open>A queued call stays queued until it is handed a session or its timer fires\<close>

lemma handed_acquire: "handed (acquire b t st) = handed st"
  by (cases rule: acquire_cases[of st b t]) simp_all

lemma handed_mono_maybeUseSession: "handed st \<subseteq> handed (snd (maybeUseSession s st))"
  by (cases "waiters st") (auto simp: maybeUseSession_def callWaiter_fields)

lemma handed_deleteSession: "handed (deleteSession s st) = handed st"
  by (simp add: deleteSession_def Let_def handed_acquire)

lemma handed_destroy: "handed (destroy st) = handed st"
proof -
  have "handed (fold deleteSession xs st) = handed st" for xs
    by (induction xs arbitrary: st) (simp_all add: handed_deleteSession)
  then show ?thesis
    by (simp add: destroy_def)
qed

lemma handed_mono_emit: "handed st \<subseteq> handed (emit ev s st)"
  using handed_mono_maybeUseSession[of st s]
  by (cases ev) (simp_all add: handed_deleteSession)

lemma handed_mono_release: "handed st \<subseteq> handed (release s st)"
  using handed_mono_emit[of "setSession s (sessionRelease (store st s)) st" SESSION_RELEASE s]
  by (simp add: release_def del: emit.simps)

lemma handed_mono_continueDelete: "handed st \<subseteq> handed (continueDelete k st)"
  using handed_mono_maybeUseSession[of "st\<lparr>internal := removeAll k (internal st)\<rparr>"]
    handed_mono_release[of "st\<lparr>internal := removeAll k (internal st)\<rparr>"]
  by (auto simp: continueDelete_def Let_def split: option.splits outcome.splits)

lemma handed_mono_step: "handed st \<subseteq> handed (step e st)"
proof (cases e)
  case (Release s)
  then show ?thesis using handed_mono_release[of st s] by simp
next
  case (Continue k)
  then show ?thesis using handed_mono_continueDelete[of st k] by simp
qed (simp_all add: handed_acquire handed_deleteSession handed_destroy createDone_def
      createFail_def thenCallback_def finallyCallback_def streamClosed_def deleteDone_def
      timeoutFired_def setSession_def Let_def split: option.splits)

lemma queued_frame:
  assumes "queued a c st" "waiters st' = waiters st" "timers st' = timers st"
  shows "queued a c st'"
  using assms by (simp add: queued_def)

lemma queued_acquire: "wellFormed st \<Longrightarrow> queued a c st \<Longrightarrow> queued a c (acquire b t st)"
proof -
  assume w: "wellFormed st" and q: "queued a c st"
  from q wellFormedD(4)[OF w] have "c \<noteq> nextCall st" by (auto simp: queued_def)
  with q show ?thesis
    by (cases rule: acquire_cases[of st b t]) (auto simp: queued_def)
qed

lemma queued_maybeUseSession:
  "wellFormed st \<Longrightarrow> queued a c st \<Longrightarrow>
     queued a c (snd (maybeUseSession s st)) \<or> c \<in> handed (snd (maybeUseSession s st))"
proof (cases "waiters st")
  case Nil
  assume "queued a c st"
  with Nil show ?thesis by (simp add: queued_def)
next
  case (Cons w ws)
  assume w: "wellFormed st" and q: "queued a c st"
  show ?thesis
  proof (cases "c = w")
    case True
    with Cons show ?thesis by (simp add: maybeUseSession_def callWaiter_fields)
  next
    case False
    with Cons q show ?thesis by (auto simp: queued_def maybeUseSession_def callWaiter_fields)
  qed
qed

lemma queued_deleteSession: "wellFormed st \<Longrightarrow> queued a c st \<Longrightarrow> queued a c (deleteSession s st)"
  using queued_acquire[of "st\<lparr>sessionsBeingDeleted := sessionsBeingDeleted st + 1\<rparr>" a c True 0]
  by (auto simp: deleteSession_def Let_def queued_def)

lemma queued_destroy: "wellFormed st \<Longrightarrow> queued a c st \<Longrightarrow> queued a c (destroy st)"
proof -
  have "wellFormed st \<Longrightarrow> queued a c st \<Longrightarrow> queued a c (fold deleteSession xs st)" for xs
    by (induction xs arbitrary: st)
       (simp_all add: queued_deleteSession wellFormed_deleteSession)
  then show "wellFormed st \<Longrightarrow> queued a c st \<Longrightarrow> queued a c (destroy st)"
    by (simp add: destroy_def)
qed

lemma queued_emit:
  "wellFormed st \<Longrightarrow> queued a c st \<Longrightarrow> queued a c (emit ev s st) \<or> c \<in> handed (emit ev s st)"
  using queued_maybeUseSession[of st a c s]
  by (cases ev) (simp_all add: queued_deleteSession)

lemma queued_release:
  "wellFormed st \<Longrightarrow> queued a c st \<Longrightarrow> queued a c (release s st) \<or> c \<in> handed (release s st)"
  using queued_emit[of "setSession s (sessionRelease (store st s)) st" a c SESSION_RELEASE s]
  by (simp add: release_def queued_def del: emit.simps)

lemma queued_continueDelete:
  "wellFormed st \<Longrightarrow> queued a c st \<Longrightarrow>
     queued a c (continueDelete k st) \<or> c \<in> handed (continueDelete k st)"
  using queued_maybeUseSession[of "st\<lparr>internal := removeAll k (internal st)\<rparr>" a c]
    queued_release[of "st\<lparr>internal := removeAll k (internal st)\<rparr>" a c]
  by (auto simp: continueDelete_def Let_def queued_def split: option.splits outcome.splits)

lemma queued_timeoutFired:
  assumes "wellFormed st" "queued a c st" "k \<noteq> c"
  shows "queued a c (timeoutFired k st)"
proof (cases "k \<in> set (timers st)")
  case False
  with assms(2) show ?thesis by (simp add: timeoutFired_def)
next
  case True
  show ?thesis
    using timeoutFired_fields[OF assms(1) True] assms(2,3) by (simp add: queued_def)
qed

lemma queued_step:
  assumes "wellFormed st" "queued a c st" "e \<noteq> Timeout c"
  shows "queued a c (step e st) \<or> c \<in> handed (step e st)"
proof (cases e)
  case (Acquire t)
  then show ?thesis using queued_acquire[OF assms(1,2)] by simp
next
  case (CreateDone k)
  then show ?thesis using assms(2) by (simp add: queued_def createDone_def setSession_def Let_def)
next
  case (CreateFail k x)
  then show ?thesis using assms(2) by (simp add: queued_def createFail_def)
next
  case (Then k)
  then show ?thesis using assms(2)
    by (simp add: queued_def thenCallback_def setSession_def split: option.splits)
next
  case (Finally k)
  then show ?thesis using assms(2)
    by (simp add: queued_def finallyCallback_def split: option.splits)
next
  case (Release s)
  then show ?thesis using queued_release[OF assms(1,2)] by simp
next
  case (Broken s)
  then show ?thesis using queued_deleteSession[OF assms(1,2)] by simp
next
  case (StreamClosed s)
  then show ?thesis using assms(2) by (simp add: queued_def streamClosed_def)
next
  case (DeleteDone s)
  then show ?thesis using assms(2) by (simp add: queued_def deleteDone_def setSession_def)
next
  case (Timeout k)
  with assms(3) have "k \<noteq> c" by simp
  with Timeout show ?thesis using queued_timeoutFired[OF assms(1,2)] by simp
next
  case (Continue k)
  then show ?thesis using queued_continueDelete[OF assms(1,2)] by simp
next
  case Destroy
  then show ?thesis using queued_destroy[OF assms(1,2)] by simp
qed

lemma queued_run:
  assumes "wellFormed st" "queued a c st \<or> c \<in> handed st" "Timeout c \<notin> set es"
  shows "queued a c (run es st) \<or> c \<in> handed (run es st)"
  using assms
proof (induction es arbitrary: st)
  case Nil
  then show ?case by simp
next
  case (Cons e es)
  have "queued a c (step e st) \<or> c \<in> handed (step e st)"
    using Cons.prems queued_step[of st a c e] handed_mono_step[of st e] by auto
  moreover have "wellFormed (step e st)" using Cons.prems(1) by (rule wellFormed_step)
  ultimately show ?case using Cons.IH[of "step e st"] Cons.prems(3) by simp
qed

text \<open>An unarmed call has no timer to fire: \<open>Timeout c\<close> does nothing to it.\<close>

lemma unarmed_run:
  assumes "wellFormed st" "queued False c st \<or> c \<in> handed st"
  shows "queued False c (run es st) \<or> c \<in> handed (run es st)"
  using assms
proof (induction es arbitrary: st)
  case Nil
  then show ?case by simp
next
  case (Cons e es)
  have "queued False c (step e st) \<or> c \<in> handed (step e st)"
  proof (cases "e = Timeout c")
    case True
    with Cons.prems(2) show ?thesis
      using handed_mono_step[of st e] by (auto simp: queued_def timeoutFired_def)
  next
    case False
    with Cons.prems show ?thesis
      using queued_step[of st False c e] handed_mono_step[of st e] by auto
  qed
  moreover have "wellFormed (step e st)" using Cons.prems(1) by (rule wellFormed_step)
  ultimately show ?case using Cons.IH[of "step e st"] by simp
qed

subsection \<open>Waiters are served in the order they queued\<close>

lemma release_resolves:
  assumes "\<not> sessionIsClosing (store st s)" and "waiters st = w # ws"
  shows "busy (store (release s st) s)"
    and "map_of (settled st) w = None \<Longrightarrow> map_of (settled (release s st)) w = Some (Resolved s)"
    and "busy (store st p) \<Longrightarrow> busy (store (release s st) p)"
  using assms
  by (auto simp: release_def maybeUseSession_def callWaiter_def settle_def setSession_def
        sessionRelease_def sessionIsClosing_def sessionAcquire_def map_add_def
        split: option.splits)

lemma waiter_unsettled:
  assumes "wellFormed st" and "w \<in> set (waiters st)"
  shows "map_of (settled st) w = None"
proof -
  from wellFormedD(3)[OF assms(1)] assms(2) have "w \<notin> fst ` set (settled st)"
    by (auto simp: doneCalls_def)
  then show ?thesis by (simp add: map_of_eq_None_iff)
qed

lemma run_releases_resolve:
  "wellFormed st \<Longrightarrow> \<forall>s\<in>set ss. \<not> sessionIsClosing (store st s) \<Longrightarrow>
   length ss \<le> length (waiters st) \<Longrightarrow>
     (\<forall>i<length ss. map_of (settled (run (map Release ss) st)) (waiters st ! i)
                      = Some (Resolved (ss ! i))) \<and>
     (\<forall>p. busy (store st p) \<or> p \<in> set ss \<longrightarrow> busy (store (run (map Release ss) st) p))"
proof (induction ss arbitrary: st)
  case Nil
  then show ?case by simp
next
  case (Cons s ss)
  then obtain w ws where w: "waiters st = w # ws" by (cases "waiters st") auto
  from Cons.prems have nc: "\<not> sessionIsClosing (store st s)" by simp
  note r = release_resolves[OF nc w]
  note q = release_to_waiter[OF nc w]
  have un: "map_of (settled st) w = None"
    using waiter_unsettled[OF Cons.prems(1)] w by simp
  have w1: "wellFormed (release s st)"
    using Cons.prems(1) by (rule wellFormed_release)
  have c1: "\<forall>x\<in>set ss. \<not> sessionIsClosing (store (release s st) x)"
    using Cons.prems(2) q(3) by simp
  have l1: "length ss \<le> length (waiters (release s st))"
    using Cons.prems(3) w q(2) by simp
  note ih = Cons.IH[OF w1 c1 l1]
  have first: "map_of (settled (run (map Release (s # ss)) st)) w = Some (Resolved s)"
    using run_keeps[OF r(2)[OF un], of "map Release ss"] by simp
  have "map_of (settled (run (map Release (s # ss)) st)) (waiters st ! i)
          = Some (Resolved ((s # ss) ! i))" if "i < length (s # ss)" for i
  proof (cases i)
    case 0
    with first w show ?thesis by simp
  next
    case (Suc j)
    with that have "j < length ss" by simp
    with ih have "map_of (settled (run (map Release ss) (release s st))) (waiters (release s st) ! j)
        = Some (Resolved (ss ! j))" by blast
    with Suc w q(2) show ?thesis by simp
  qed
  moreover have "busy (store (run (map Release (s # ss)) st) p)"
    if "busy (store st p) \<or> p \<in> set (s # ss)" for p
  proof -
    from that r(1) r(3)[of p] have "busy (store (release s st) p) \<or> p \<in> set ss" by auto
    with ih have "busy (store (run (map Release ss) (release s st)) p)" by blast
    then show ?thesis by simp
  qed
  ultimately show ?case by blast
qed

text \<open>
  C6. In any state, the release of a session that is not closing calls the waiter at the
  head of the queue with that session: the waiter leaves the queue, the session is busy
  again, and the waiter's promise, if still unsettled, is resolved with the session. In a
  pool reached by any run from a new pool, callers that find no free session and the gate
  shut queue in call order behind the waiters already there, whatever their timeouts, and
  their promises are unsettled; when sessions are then released one at a time (none of
  them closing), the \<open>i\<close>-th release calls the \<open>i\<close>-th waiter of the queue with the \<open>i\<close>-th
  session and resolves its promise with it, every released session ends busy, and the
  queue that remains is the rest in the same order.
\<close>

theorem waiters_served_in_enqueue_order:
  assumes "st = run es0 (newPool mn mx)"
    and "find (\<lambda>s. sessionIsFree (store st s)) (sessions st) = None"
    and "\<not> gateOpen st"
    and "\<forall>s\<in>set ss. \<not> sessionIsClosing (store st s)"
    and "length ss \<le> length (waiters st) + length ts"
    and "queue = waiters st @ [nextCall st ..< nextCall st + length ts]"
    and "final = run (map Acquire ts @ map Release ss) st"
  shows "(\<not> sessionIsClosing (store st' s') \<and> waiters st' = w # ws \<longrightarrow>
            handoffs (release s' st') = handoffs st' @ [(w, s')] \<and>
            waiters (release s' st') = ws \<and>
            busy (store (release s' st') s') \<and>
            (map_of (settled st') w = None \<longrightarrow>
               map_of (settled (release s' st')) w = Some (Resolved s'))) \<and>
         waiters (run (map Acquire ts) st) = queue \<and>
         (\<forall>i<length ss. map_of (settled (run (map Acquire ts) st)) (queue ! i) = None) \<and>
         handoffs final = handoffs st @ zip queue ss \<and>
         (\<forall>i<length ss. map_of (settled final) (queue ! i) = Some (Resolved (ss ! i))) \<and>
         (\<forall>s\<in>set ss. busy (store final s)) \<and>
         waiters final = drop (length ss) queue"
proof -
  let ?mid = "run (map Acquire ts) st"
  have wst: "wellFormed st"
    unfolding assms(1) by (rule wellFormed_run[OF wellFormed_newPool])
  have wmid: "wellFormed ?mid"
    using wst by (rule wellFormed_run)
  from assms(2,3) have b: "blocked st" by (simp add: blocked_def)
  note a = run_acquires[OF b, of ts]
  have qmid: "waiters ?mid = queue"
    using a by (simp add: assms(6))
  have cmid: "\<forall>s\<in>set ss. \<not> sessionIsClosing (store ?mid s)"
    using assms(4) a by simp
  have lmid: "length ss \<le> length (waiters ?mid)"
    using assms(5) a by simp
  have fin: "final = run (map Release ss) ?mid"
    by (simp add: assms(7) run_append)
  have step: "\<not> sessionIsClosing (store st' s') \<and> waiters st' = w # ws \<longrightarrow>
            handoffs (release s' st') = handoffs st' @ [(w, s')] \<and>
            waiters (release s' st') = ws \<and>
            busy (store (release s' st') s') \<and>
            (map_of (settled st') w = None \<longrightarrow>
               map_of (settled (release s' st')) w = Some (Resolved s'))"
    using release_to_waiter(1,2)[of st' s' w ws] release_resolves(1,2)[of st' s' w ws]
    by blast
  have unsettled: "\<forall>i<length ss. map_of (settled ?mid) (queue ! i) = None"
  proof (intro allI impI)
    fix i assume "i < length ss"
    with lmid qmid have "queue ! i \<in> set (waiters ?mid)" by simp
    then show "map_of (settled ?mid) (queue ! i) = None"
      by (rule waiter_unsettled[OF wmid])
  qed
  have order: "handoffs final = handoffs st @ zip queue ss"
    "waiters final = drop (length ss) queue"
    using run_releases[OF cmid lmid] a qmid by (simp_all add: fin)
  have resolved: "\<forall>i<length ss. map_of (settled final) (queue ! i) = Some (Resolved (ss ! i))"
    using run_releases_resolve[OF wmid cmid lmid] qmid by (simp add: fin)
  have held: "\<forall>s\<in>set ss. busy (store final s)"
    using run_releases_resolve[OF wmid cmid lmid] by (simp add: fin)
  show ?thesis
    using step qmid unsettled order resolved held by blast
qed

theorem waiters_served_in_enqueue_order_witness:
  "twoBusySessions
     = run [Acquire 0, CreateDone 0, Then 0, Finally 0, Acquire 0, CreateDone 1, Then 1, Finally 1]
         (newPool None (Some 1)) \<and>
   find (\<lambda>s. sessionIsFree (store twoBusySessions s)) (sessions twoBusySessions) = None \<and>
   \<not> gateOpen twoBusySessions \<and>
   \<not> sessionIsClosing (store twoBusySessions 0) \<and>
   \<not> sessionIsClosing (store twoBusySessions 1) \<and>
   waiters (run [Acquire 0, Acquire 50] twoBusySessions) = [2, 3] \<and>
   handoffs (run [Acquire 0, Acquire 50, Release 1, Release 0] twoBusySessions)
     = [(2, 1), (3, 0)] \<and>
   map_of (settled (run [Acquire 0, Acquire 50, Release 1, Release 0] twoBusySessions)) 2
     = Some (Resolved 1) \<and>
   map_of (settled (run [Acquire 0, Acquire 50, Release 1, Release 0] twoBusySessions)) 3
     = Some (Resolved 0) \<and>
   busy (store (run [Acquire 0, Acquire 50, Release 1, Release 0] twoBusySessions) 0) \<and>
   waiters (run [Acquire 0, Acquire 50, Release 1, Release 0] twoBusySessions) = []"
proof -
  have a: "twoBusySessions
     = run [Acquire 0, CreateDone 0, Then 0, Finally 0, Acquire 0, CreateDone 1, Then 1, Finally 1]
         (newPool None (Some 1))"
    by (simp add: twoBusySessions_def)
  have b: "find (\<lambda>s. sessionIsFree (store twoBusySessions s)) (sessions twoBusySessions) = None"
    and c: "\<not> gateOpen twoBusySessions"
    and d: "\<forall>s\<in>set [1, 0]. \<not> sessionIsClosing (store twoBusySessions s)"
    and e: "length [1, 0 :: nat] \<le> length (waiters twoBusySessions) + length [0, 50 :: int]"
    by (simp_all add: twoBusySessions_def pool_defs)
  have "waiters (run (map Acquire [0, 50]) twoBusySessions)
          = waiters twoBusySessions @ [nextCall twoBusySessions ..< nextCall twoBusySessions + 2]"
    using waiters_served_in_enqueue_order[OF a b c d e refl refl] by simp
  then show ?thesis
    by (simp add: twoBusySessions_def pool_defs)
qed

subsection \<open>Timeouts\<close>

text \<open>
  C7. In a pool reached by any run from a new pool, take an acquire call that queues a
  waiter (no session free, the gate shut); the elapsing of its timeout is the firing of its
  timer. The call is in the queue. With \<open>timeout > 0\<close>: if the timer has not fired and no
  session has been handed to the waiter, then on the firing the waiter is out of the queue
  and the promise of the call is rejected with SessionPoolEmpty, and whatever happens
  afterwards the waiter is not in the queue, is handed no session, and the promise stays
  rejected. With \<open>timeout = 0\<close>: whatever happens, the waiter is either still in the queue,
  its promise unsettled, or it has been handed a session.
\<close>

theorem waiter_timeout:
  assumes "st = run es0 (newPool mn mx)"
    and "find (\<lambda>s. sessionIsFree (store st s)) (sessions st) = None"
    and "\<not> gateOpen st"
    and "c = nextCall st"
    and "q = acquire False t st"
  shows "c \<in> set (waiters q) \<and>
         (0 < t \<longrightarrow>
            (\<forall>es1 es2. Timeout c \<notin> set es1 \<and> c \<notin> handed (run es1 q) \<longrightarrow>
               c \<notin> set (waiters (run (es1 @ Timeout c # es2) q)) \<and>
               map_of (settled (run (es1 @ Timeout c # es2) q)) c
                 = Some (Rejected SessionPoolEmpty) \<and>
               c \<notin> handed (run (es1 @ Timeout c # es2) q))) \<and>
         (t = 0 \<longrightarrow>
            (\<forall>es. c \<in> set (waiters (run es q)) \<and> map_of (settled (run es q)) c = None \<or>
                  c \<in> handed (run es q)))"
proof -
  have w: "wellFormed st"
    unfolding assms(1) by (rule wellFormed_run[OF wellFormed_newPool])
  have wq: "wellFormed q"
    unfolding assms(5) using w by (rule wellFormed_acquire)
  have fields: "waiters q = waiters st @ [c]"
    "timers q = (if t \<noteq> 0 then timers st @ [c] else timers st)"
    using assms(2,3) by (simp_all add: assms(4,5) acquire_def Let_def gateOpen_def)
  have fresh: "c \<notin> set (timers st)"
    using wellFormedD(2,4)[OF w] assms(4) by auto
  have inq: "c \<in> set (waiters q)"
    by (simp add: fields)
  have armed: "0 < t \<Longrightarrow> Timeout c \<notin> set es1 \<Longrightarrow> c \<notin> handed (run es1 q) \<Longrightarrow>
      c \<notin> set (waiters (run (es1 @ Timeout c # es2) q)) \<and>
      map_of (settled (run (es1 @ Timeout c # es2) q)) c = Some (Rejected SessionPoolEmpty) \<and>
      c \<notin> handed (run (es1 @ Timeout c # es2) q)" for es1 es2
  proof -
    assume t: "0 < t" and nf: "Timeout c \<notin> set es1" and nh: "c \<notin> handed (run es1 q)"
    from t have "queued True c q" by (simp add: queued_def fields)
    then have "queued True c (run es1 q) \<or> c \<in> handed (run es1 q)"
      using queued_run[OF wq _ nf, of True] by blast
    with nh have tm: "c \<in> set (timers (run es1 q))" by (simp add: queued_def)
    have w1: "wellFormed (run es1 q)" using wq by (rule wellFormed_run)
    note r = timeoutFired_rejects[OF w1 tm]
    have "gone c (run es2 (timeoutFired c (run es1 q)))"
      using r(1) by (rule gone_run)
    moreover have "map_of (settled (run es2 (timeoutFired c (run es1 q)))) c
        = Some (Rejected SessionPoolEmpty)"
      using r(2) by (rule run_keeps)
    ultimately show ?thesis
      by (simp add: run_append gone_def)
  qed
  have unarmed: "t = 0 \<Longrightarrow>
      c \<in> set (waiters (run es q)) \<and> map_of (settled (run es q)) c = None \<or>
      c \<in> handed (run es q)" for es
  proof -
    assume t: "t = 0"
    with fresh have "queued False c q" by (simp add: queued_def fields)
    then have d: "queued False c (run es q) \<or> c \<in> handed (run es q)"
      using unarmed_run[OF wq, of c es] by blast
    have w1: "wellFormed (run es q)" using wq by (rule wellFormed_run)
    show ?thesis
    proof (cases "c \<in> handed (run es q)")
      case True
      then show ?thesis by simp
    next
      case False
      with d have cw: "c \<in> set (waiters (run es q))" by (simp add: queued_def)
      with wellFormedD(3)[OF w1] have "c \<notin> fst ` set (settled (run es q))"
        by (auto simp: doneCalls_def)
      with cw show ?thesis by (simp add: map_of_eq_None_iff)
    qed
  qed
  show ?thesis
    using inq armed unarmed by blast
qed

theorem waiter_timeout_witness:
  "twoBusySessions
     = run [Acquire 0, CreateDone 0, Then 0, Finally 0, Acquire 0, CreateDone 1, Then 1, Finally 1]
         (newPool None (Some 1)) \<and>
   find (\<lambda>s. sessionIsFree (store twoBusySessions s)) (sessions twoBusySessions) = None \<and>
   \<not> gateOpen twoBusySessions \<and>
   nextCall twoBusySessions = 2 \<and>
   waiters (run [Release 0] (timeoutFired 2 (acquire False 50 twoBusySessions))) = [] \<and>
   map_of (settled (run [Release 0] (timeoutFired 2 (acquire False 50 twoBusySessions)))) 2
     = Some (Rejected SessionPoolEmpty) \<and>
   handoffs (run [Release 0] (timeoutFired 2 (acquire False 50 twoBusySessions))) = [] \<and>
   waiters (run [Timeout 2] (acquire False 0 twoBusySessions)) = [2] \<and>
   handoffs (run [Timeout 2, Release 0] (acquire False 0 twoBusySessions)) = [(2, 0)]"
proof -
  have a: "twoBusySessions
     = run [Acquire 0, CreateDone 0, Then 0, Finally 0, Acquire 0, CreateDone 1, Then 1, Finally 1]
         (newPool None (Some 1))"
    by (simp add: twoBusySessions_def)
  have b: "find (\<lambda>s. sessionIsFree (store twoBusySessions s)) (sessions twoBusySessions) = None"
    and c: "\<not> gateOpen twoBusySessions" and d: "2 = nextCall twoBusySessions"
    by (simp_all add: twoBusySessions_def pool_defs)
  have "2 \<in> set (waiters (acquire False 50 twoBusySessions))"
    using waiter_timeout[where t = 50, OF a b c d refl] by blast
  moreover have "2 \<in> set (waiters (acquire False 0 twoBusySessions))"
    using waiter_timeout[where t = 0, OF a b c d refl] by blast
  ultimately show ?thesis
    by (simp add: twoBusySessions_def pool_defs)
qed

end
